theory Spec2Isabelle
  imports Main
begin

section \<open>Text primitives\<close>

text \<open>
  Python strings are modelled as lists of 8-bit characters. For ASCII text this is
  Python's \<^verbatim>\<open>str\<close>; the few non-ASCII constants of the sources (the em dash
  placeholder, the curly apostrophes) are written as their UTF-8 bytes. Whitespace is
  what \<^verbatim>\<open>str.strip()\<close> and the regular expression class \<^verbatim>\<open>\s\<close> accept in
  the ASCII range; \<^verbatim>\<open>str.lower()\<close> maps A-Z to a-z.
\<close>

definition py_space :: "char \<Rightarrow> bool" where
  "py_space c \<longleftrightarrow> c \<in> set [CHR 0x09, CHR 0x0A, CHR 0x0B, CHR 0x0C, CHR 0x0D,
       CHR 0x1C, CHR 0x1D, CHR 0x1E, CHR 0x1F, CHR '' '']"

definition lstrip :: "string \<Rightarrow> string" where
  "lstrip s = dropWhile py_space s"

definition rstrip :: "string \<Rightarrow> string" where
  "rstrip s = rev (dropWhile py_space (rev s))"

definition strip :: "string \<Rightarrow> string" where
  "strip s = rstrip (lstrip s)"


definition lower_char :: "char \<Rightarrow> char" where
  "lower_char c =
     (case map_of (zip ''ABCDEFGHIJKLMNOPQRSTUVWXYZ'' ''abcdefghijklmnopqrstuvwxyz'') c of
        Some d \<Rightarrow> d
      | None \<Rightarrow> c)"

definition lower :: "string \<Rightarrow> string" where
  "lower s = map lower_char s"

definition startswith :: "string \<Rightarrow> string \<Rightarrow> bool" where
  "startswith s p \<longleftrightarrow> take (length p) s = p"

text \<open>\<^verbatim>\<open>re.sub(r"\s+", " ", s)\<close>: every maximal run of whitespace becomes one space.\<close>

function collapse_ws :: "string \<Rightarrow> string" where
  "collapse_ws [] = []"
| "collapse_ws (c # cs) =
     (if py_space c then CHR '' '' # collapse_ws (dropWhile py_space cs)
      else c # collapse_ws cs)"
  by pat_completeness auto
termination
  by (relation "measure length") (auto simp: length_dropWhile_le less_Suc_eq_le)

text \<open>\<^verbatim>\<open>clean(s) = re.sub(r"\s+", " ", (s or "").strip())\<close>\<close>

definition clean :: "string \<Rightarrow> string" where
  "clean s = collapse_ws (strip s)"


section \<open>Values, rows and tables of the external store\<close>

text \<open>
  A model instance is a row: a column name mapped to a Python value. Text columns
  default to the empty string, nullable columns to \<^verbatim>\<open>None\<close>.
\<close>

datatype pyv = Str string | Bool bool | Stamp nat | Uuid nat | PyNone

type_synonym row = "string \<Rightarrow> pyv"

type_synonym table = "string \<rightharpoonup> row"

text \<open>\<^verbatim>\<open>(x or "")\<close> for a text attribute.\<close>

fun text_of :: "pyv \<Rightarrow> string" where
  "text_of (Str s) = s"
| "text_of _ = []"

section \<open>Merge Engine\<close>

subsection \<open>Apprenticeships: \<^verbatim>\<open>_is_emptyish\<close> and the merge of \<^verbatim>\<open>_process_one\<close>\<close>

definition em_dash :: string where
  "em_dash = [CHR 0xE2, CHR 0x80, CHR 0x94]"

definition placeholders :: "string list" where
  "placeholders = [''-'', em_dash, ''n/a'', ''na'', ''not available'', ''not applicable'',
     ''tbc'', ''to be confirmed'', ''competitive'']"

definition is_emptyish :: "string \<Rightarrow> bool" where
  "is_emptyish val =
     (let v = lower (strip val) in
      if v = [] then True else v \<in> set placeholders)"

record ListedVacancy =
  lv_vacancy_ref :: string
  lv_url :: string
  lv_title :: string
  lv_employer_name :: string
  lv_location_summary :: string
  lv_start_date :: string
  lv_training_course :: string
  lv_wage :: string
  lv_closing_text :: string
  lv_posted_text :: string

text \<open>\<^verbatim>\<open>details.get(k, "")\<close>\<close>

definition dget :: "(string \<rightharpoonup> string) \<Rightarrow> string \<Rightarrow> string" where
  "dget d k = (case d k of None \<Rightarrow> [] | Some v \<Rightarrow> v)"

text \<open>
  One line of the merge:
  \<^verbatim>\<open>if _is_emptyish(details.get(k, "")) and listed.k: details[k] = listed.k\<close>
\<close>

definition fill_from_listing ::
  "string \<Rightarrow> string \<Rightarrow> (string \<rightharpoonup> string) \<Rightarrow> (string \<rightharpoonup> string)" where
  "fill_from_listing k v details =
     (if is_emptyish (dget details k) \<and> v \<noteq> [] then details(k \<mapsto> v) else details)"

definition merge_listing :: "(string \<rightharpoonup> string) \<Rightarrow> ListedVacancy \<Rightarrow> (string \<rightharpoonup> string)" where
  "merge_listing details listed =
     (let d1 = fill_from_listing ''title'' (lv_title listed) details;
          d2 = fill_from_listing ''employer_name'' (lv_employer_name listed) d1;
          d3 = fill_from_listing ''location_summary'' (lv_location_summary listed) d2;
          d4 = fill_from_listing ''closing_text'' (lv_closing_text listed) d3;
          d5 = fill_from_listing ''posted_text'' (lv_posted_text listed) d4;
          d6 = fill_from_listing ''start_date'' (lv_start_date listed) d5;
          d7 = fill_from_listing ''training_course'' (lv_training_course listed) d6;
          d8 = fill_from_listing ''wage'' (lv_wage listed) d7
      in d8)"


subsection \<open>Jobs: \<^verbatim>\<open>fill_if_empty\<close> and the merge inside \<^verbatim>\<open>Command.handle\<close>\<close>

record ListedJob =
  lj_job_id :: string
  lj_url :: string
  lj_title :: string
  lj_posting_date :: string
  lj_company :: string
  lj_location :: string
  lj_salary :: string
  lj_remote_working :: string
  lj_job_type :: string
  lj_hours :: string
  lj_listing_snippet :: string

text \<open>\<^verbatim>\<open>if merged.get(k) in ("", None): merged[k] = v\<close>\<close>

definition fill_if_empty :: "string \<Rightarrow> string \<Rightarrow> (string \<rightharpoonup> pyv) \<Rightarrow> (string \<rightharpoonup> pyv)" where
  "fill_if_empty k v merged =
     (if merged k = None \<or> merged k = Some PyNone \<or> merged k = Some (Str [])
      then merged(k \<mapsto> Str v) else merged)"

definition merge_job ::
  "(string \<rightharpoonup> pyv) \<Rightarrow> ListedJob \<Rightarrow> string \<Rightarrow> string \<Rightarrow> (string \<rightharpoonup> pyv)" where
  "merge_job details listed category subcategory =
     (let m1 = fill_if_empty ''title'' (lj_title listed) details;
          m2 = fill_if_empty ''posting_date'' (lj_posting_date listed) m1;
          m3 = fill_if_empty ''company'' (lj_company listed) m2;
          m4 = fill_if_empty ''location'' (lj_location listed) m3;
          m5 = fill_if_empty ''salary'' (lj_salary listed) m4;
          m6 = fill_if_empty ''remote_working'' (lj_remote_working listed) m5;
          m7 = fill_if_empty ''job_type'' (lj_job_type listed) m6;
          m8 = fill_if_empty ''hours'' (lj_hours listed) m7;
          m9 = (if lj_listing_snippet listed \<noteq> []
                then m8(''listing_snippet'' \<mapsto> Str (lj_listing_snippet listed)) else m8)
      in m9(''job_url'' \<mapsto> Str (lj_url listed),
            ''category'' \<mapsto> Str category,
            ''subcategory'' \<mapsto> Str subcategory))"


subsection \<open>Example stubs\<close>

definition stub_vacancy :: "string \<Rightarrow> ListedVacancy" where
  "stub_vacancy w = \<lparr>lv_vacancy_ref = ''VAC1'', lv_url = ''/apprenticeship/VAC1'',
     lv_title = ''Chef'', lv_employer_name = [], lv_location_summary = [], lv_start_date = [],
     lv_training_course = [], lv_wage = w, lv_closing_text = [], lv_posted_text = []\<rparr>"

definition stub_job :: "string \<Rightarrow> ListedJob" where
  "stub_job sal = \<lparr>lj_job_id = ''17'', lj_url = ''/details/17'', lj_title = ''Chef'',
     lj_posting_date = [], lj_company = [], lj_location = [], lj_salary = sal,
     lj_remote_working = [], lj_job_type = [], lj_hours = [], lj_listing_snippet = []\<rparr>"

section \<open>Extraction primitives: label/value lookup\<close>

subsection \<open>Jobs: \<^verbatim>\<open>DwpJobClient._is_label_line\<close> and \<^verbatim>\<open>DwpJobClient._find_after_label\<close>\<close>







subsection \<open>Apprenticeships: \<^verbatim>\<open>_find_after_label\<close>\<close>




subsection \<open>What a line is for a label\<close>





section \<open>Ingestion store: apprenticeships (\<^verbatim>\<open>Command._upsert_smart\<close>)\<close>

text \<open>
  \<^verbatim>\<open>obj.save(update_fields=fs)\<close>: the stored row takes the listed columns from the
  instance and keeps every other column; \<^verbatim>\<open>scraped_at\<close> is an \<^verbatim>\<open>auto_now\<close> column,
  stamped on the instance at every save. One clock reading \<open>now\<close> stands for
  \<^verbatim>\<open>timezone.now()\<close> of the call and of the saves it makes.
\<close>

definition django_save :: "nat \<Rightarrow> row \<Rightarrow> row \<Rightarrow> string list \<Rightarrow> row" where
  "django_save now stored obj fs =
     (\<lambda>f. if f \<in> set fs then (obj(''scraped_at'' := Stamp now)) f else stored f)"

definition vacancy_blank :: row where
  "vacancy_blank =
     (\<lambda>f. if f \<in> set [''last_checked_at'', ''last_scrape_run_id'', ''scraped_at'']
          then PyNone else Str [])"

text \<open>\<^verbatim>\<open>get_or_create(vacancy_ref=ref, defaults=new_vals)\<close> when no row exists.\<close>

definition insert_vacancy :: "nat \<Rightarrow> string \<Rightarrow> (string \<times> pyv) list \<Rightarrow> row" where
  "insert_vacancy now vacancy_ref defaults =
     fold (\<lambda>(f, v) r. r(f := v)) defaults
       (vacancy_blank(''vacancy_ref'' := Str vacancy_ref, ''scraped_at'' := Stamp now))"

definition new_vals ::
  "nat \<Rightarrow> string \<Rightarrow> (string \<rightharpoonup> string) \<Rightarrow> string \<Rightarrow> string \<Rightarrow> nat \<Rightarrow> (string \<times> pyv) list" where
  "new_vals now vacancy_url data category subcategory run_id =
     [(''vacancy_url'', Str (take 1000 vacancy_url)),
      (''title'', Str (take 500 (dget data ''title''))),
      (''employer_name'', Str (take 500 (dget data ''employer_name''))),
      (''location_summary'', Str (take 255 (dget data ''location_summary''))),
      (''closing_text'', Str (take 255 (dget data ''closing_text''))),
      (''posted_text'', Str (take 255 (dget data ''posted_text''))),
      (''summary_text'', Str (dget data ''summary_text'')),
      (''wage'', Str (take 255 (dget data ''wage''))),
      (''wage_extra'', Str (dget data ''wage_extra'')),
      (''training_course'', Str (take 500 (dget data ''training_course''))),
      (''hours'', Str (take 500 (dget data ''hours''))),
      (''hours_per_week'', Str (take 64 (dget data ''hours_per_week''))),
      (''start_date'', Str (take 255 (dget data ''start_date''))),
      (''duration'', Str (take 255 (dget data ''duration''))),
      (''positions_available'', Str (take 64 (dget data ''positions_available''))),
      (''work_intro'', Str (dget data ''work_intro'')),
      (''what_youll_do_heading'', Str (take 255 (dget data ''what_youll_do_heading''))),
      (''what_youll_do_items'', Str (dget data ''what_youll_do_items'')),
      (''where_youll_work_name'', Str (take 500 (dget data ''where_youll_work_name''))),
      (''where_youll_work_address'', Str (dget data ''where_youll_work_address'')),
      (''training_intro'', Str (dget data ''training_intro'')),
      (''training_provider'', Str (take 500 (dget data ''training_provider''))),
      (''training_course_repeat'', Str (take 500 (dget data ''training_course_repeat''))),
      (''what_youll_learn_items'', Str (dget data ''what_youll_learn_items'')),
      (''training_schedule'', Str (dget data ''training_schedule'')),
      (''more_training_information'', Str (dget data ''more_training_information'')),
      (''essential_qualifications'', Str (dget data ''essential_qualifications'')),
      (''skills_items'', Str (dget data ''skills_items'')),
      (''other_requirements_items'', Str (dget data ''other_requirements_items'')),
      (''about_employer'', Str (dget data ''about_employer'')),
      (''employer_website'', Str (take 1000 (dget data ''employer_website''))),
      (''company_benefits_items'', Str (dget data ''company_benefits_items'')),
      (''after_this_apprenticeship'', Str (dget data ''after_this_apprenticeship'')),
      (''contact_name'', Str (take 500 (dget data ''contact_name''))),
      (''last_checked_at'', Stamp now),
      (''last_scrape_run_id'', Uuid run_id)]
     @ (if category \<noteq> [] then [(''category'', Str (take 255 category))] else [])
     @ (if subcategory \<noteq> [] then [(''subcategory'', Str (take 255 subcategory))] else [])"

text \<open>
  \<^verbatim>\<open>if category and not (obj.category or "").strip():
      obj.category = category[:255]; changed_fields.append("category")\<close>
\<close>

definition backfill :: "string \<Rightarrow> string \<Rightarrow> row \<times> string list \<Rightarrow> row \<times> string list" where
  "backfill field val = (\<lambda>(obj, changed_fields).
     if val \<noteq> [] \<and> strip (text_of (obj field)) = []
     then (obj(field := Str (take 255 val)), changed_fields @ [field])
     else (obj, changed_fields))"

text \<open>
  One round of the loop over \<^verbatim>\<open>new_vals.items()\<close>:
  \<^verbatim>\<open>if field in ("last_checked_at", "last_scrape_run_id"): continue
  if getattr(obj, field) != val: setattr(obj, field, val); changed_fields.append(field)\<close>
\<close>

definition diff_field :: "string \<times> pyv \<Rightarrow> row \<times> string list \<Rightarrow> row \<times> string list" where
  "diff_field = (\<lambda>(field, val) (obj, changed_fields).
     if field \<in> set [''last_checked_at'', ''last_scrape_run_id''] then (obj, changed_fields)
     else if obj field \<noteq> val then (obj(field := val), changed_fields @ [field])
     else (obj, changed_fields))"

text \<open>The instance and the list \<^verbatim>\<open>changed_fields\<close> after the back-fill and the loop.\<close>

definition apply_changes ::
  "(string \<times> pyv) list \<Rightarrow> string \<Rightarrow> string \<Rightarrow> row \<Rightarrow> row \<times> string list" where
  "apply_changes nv category subcategory stored =
     fold diff_field nv
       (backfill ''subcategory'' subcategory (backfill ''category'' category (stored, [])))"

fun join :: "string \<Rightarrow> string list \<Rightarrow> string" where
  "join sep [] = []"
| "join sep [x] = x"
| "join sep (x # y # ys) = x @ sep @ join sep (y # ys)"

definition upsert_smart ::
  "nat \<Rightarrow> string \<Rightarrow> string \<Rightarrow> (string \<rightharpoonup> string) \<Rightarrow> string \<Rightarrow> string \<Rightarrow> nat \<Rightarrow> table
     \<Rightarrow> (string \<times> string) \<times> table" where
  "upsert_smart now vacancy_ref vacancy_url data category subcategory run_id db =
     (let nv = new_vals now vacancy_url data category subcategory run_id in
      case db vacancy_ref of
        None \<Rightarrow>
          (let created = insert_vacancy now vacancy_ref nv;
               obj = created(''last_scrape_status'' := Str ''created'',
                             ''last_scrape_message'' := Str [])
           in ((''created'', []),
               db(vacancy_ref \<mapsto>
                    django_save now created obj [''last_scrape_status'', ''last_scrape_message''])))
      | Some stored \<Rightarrow>
          (let (obj1, changed_fields) = apply_changes nv category subcategory stored;
               obj2 = obj1(''last_checked_at'' := Stamp now, ''last_scrape_run_id'' := Uuid run_id)
           in if changed_fields = [] then
                (let obj3 = obj2(''last_scrape_status'' := Str ''skipped'',
                                 ''last_scrape_message'' := Str [])
                 in ((''skipped'', []),
                     db(vacancy_ref \<mapsto> django_save now stored obj3
                          [''last_checked_at'', ''last_scrape_run_id'',
                           ''last_scrape_status'', ''last_scrape_message''])))
              else
                (let msg = ''changed_fields='' @ join '','' changed_fields;
                     obj3 = obj2(''last_scrape_status'' := Str ''updated'',
                                 ''last_scrape_message'' := Str msg)
                 in ((''updated'', msg),
                     db(vacancy_ref \<mapsto> django_save now stored obj3
                          (changed_fields @
                           [''scraped_at'', ''last_checked_at'', ''last_scrape_run_id'',
                            ''last_scrape_status'', ''last_scrape_message'']))))))"

subsection \<open>What an upsert is expected to change\<close>

text \<open>
  The supplied columns (everything in \<^verbatim>\<open>new_vals\<close> but the two stamps), those whose
  new value differs from the stored one, and the blank stored category or subcategory
  that a non-empty supplied one fills.
\<close>

definition stamp_fields :: "string list" where
  "stamp_fields = [''last_checked_at'', ''last_scrape_run_id'']"

definition log_fields :: "string list" where
  "log_fields = [''last_checked_at'', ''last_scrape_run_id'',
                 ''last_scrape_status'', ''last_scrape_message'']"

definition supplied :: "(string \<times> pyv) list \<Rightarrow> (string \<times> pyv) list" where
  "supplied nv = filter (\<lambda>(f, v). f \<notin> set stamp_fields) nv"

definition differing :: "(string \<times> pyv) list \<Rightarrow> row \<Rightarrow> string list" where
  "differing nv stored = map fst (filter (\<lambda>(f, v). stored f \<noteq> v) (supplied nv))"

definition backfilled :: "string \<Rightarrow> string \<Rightarrow> row \<Rightarrow> string list" where
  "backfilled category subcategory stored =
     (if category \<noteq> [] \<and> strip (text_of (stored ''category'')) = [] then [''category''] else [])
     @ (if subcategory \<noteq> [] \<and> strip (text_of (stored ''subcategory'')) = []
        then [''subcategory''] else [])"

text \<open>
  A category or subcategory as the orchestrator passes it: empty (single start URL), or
  with visible text left after the 255-character cap (the query plan strips its names).
\<close>

definition plan_name :: "string \<Rightarrow> bool" where
  "plan_name c \<longleftrightarrow> c = [] \<or> strip (take 255 c) \<noteq> []"

subsection \<open>Example rows\<close>

definition chef_row :: row where
  "chef_row = vacancy_blank(''title'' := Str ''Chef'', ''category'' := Str ''Health'',
     ''last_scrape_status'' := Str ''created'')"

definition chef_db :: table where
  "chef_db = [''VAC1'' \<mapsto> chef_row]"

definition chef_data :: "string \<rightharpoonup> string" where
  "chef_data = [''title'' \<mapsto> ''Chef'']"


section \<open>Run state and audit log\<close>

text \<open>
  One row of the scrape log table (\<^verbatim>\<open>ApprenticeshipScrapeLog\<close>, \<^verbatim>\<open>JobScrapeLog\<close>);
  the log is only ever appended to.
\<close>

record log_entry =
  le_run_id :: nat
  le_category :: string
  le_keyword :: string
  le_start_url :: string
  le_ref :: string
  le_status :: string
  le_message :: string

text \<open>
  What a run of \<^verbatim>\<open>Command.handle\<close> reads and writes: the entity table, the log table,
  the counters and the seen set of \<^verbatim>\<open>handle\<close>, and three traces that record what the
  run asked of its collaborators (image hook calls, detail pages requested, items taken
  from the listing crawler). The clock stands for \<^verbatim>\<open>timezone.now()\<close>; a listing fetch
  that raises ends the run (\<open>rs_aborted\<close>). Store operations are taken to succeed.
\<close>

record run_state =
  rs_table :: table
  rs_log :: "log_entry list"
  rs_hook_calls :: "(string \<times> string) list"
  rs_fetched :: "string list"
  rs_yielded :: "string list"
  rs_seen :: "string set"
  rs_created :: nat
  rs_updated :: nat
  rs_skipped :: nat
  rs_error :: nat
  rs_clock :: nat
  rs_aborted :: bool

definition log_row :: "nat \<Rightarrow> string \<Rightarrow> string \<Rightarrow> string \<Rightarrow> string \<Rightarrow> string \<Rightarrow> string
    \<Rightarrow> run_state \<Rightarrow> run_state" where
  "log_row run_id category keyword start_url ref status message st =
     st\<lparr>rs_log := rs_log st @
        [\<lparr>le_run_id = run_id, le_category = category, le_keyword = keyword,
          le_start_url = start_url, le_ref = ref, le_status = status,
          le_message = message\<rparr>]\<rparr>"

text \<open>\<^verbatim>\<open>(max_rows > 0) and ((created + updated) >= max_rows)\<close>\<close>

definition should_stop :: "int \<Rightarrow> run_state \<Rightarrow> bool" where
  "should_stop max_rows st \<longleftrightarrow> 0 < max_rows \<and> max_rows \<le> int (rs_created st + rs_updated st)"

text \<open>
  What the listing crawler hands to the loop of \<^verbatim>\<open>handle\<close>: the next item, or an
  exception of a listing fetch.
\<close>

datatype 'a pulled = Item 'a | Crash string

text \<open>
  The innermost loop of \<^verbatim>\<open>handle\<close>:
  \<^verbatim>\<open>for listed in client.iter_all(start_url):
      if should_stop(): break
      if ref in seen: continue
      seen.add(ref); process(listed)\<close>
\<close>

fun item_loop ::
  "('a \<Rightarrow> string) \<Rightarrow> ('a \<Rightarrow> run_state \<Rightarrow> run_state) \<Rightarrow> int \<Rightarrow> 'a pulled list
     \<Rightarrow> run_state \<Rightarrow> run_state" where
  "item_loop ref_of process max_rows [] st = st"
| "item_loop ref_of process max_rows (Crash e # rest) st = st\<lparr>rs_aborted := True\<rparr>"
| "item_loop ref_of process max_rows (Item x # rest) st =
     (let st1 = st\<lparr>rs_yielded := rs_yielded st @ [ref_of x]\<rparr> in
      if should_stop max_rows st1 then st1
      else if ref_of x \<in> rs_seen st1 then item_loop ref_of process max_rows rest st1
      else item_loop ref_of process max_rows rest
             (process x (st1\<lparr>rs_seen := insert (ref_of x) (rs_seen st1)\<rparr>)))"

text \<open>
  The loop over the subcategories of one category and the loop over the categories:
  \<^verbatim>\<open>for sub in subcats:
      if should_stop(): break
      start_url = build_search_url(sub)
      for listed in client.iter_all(start_url=start_url): ...\<close>
\<close>

fun sub_loop ::
  "('a \<Rightarrow> string) \<Rightarrow> (string \<Rightarrow> string \<Rightarrow> string \<Rightarrow> 'a \<Rightarrow> run_state \<Rightarrow> run_state) \<Rightarrow> int
     \<Rightarrow> (string \<Rightarrow> string) \<Rightarrow> (string \<Rightarrow> 'a pulled list) \<Rightarrow> string \<Rightarrow> string list
     \<Rightarrow> run_state \<Rightarrow> run_state" where
  "sub_loop ref_of process max_rows build_search_url crawl category [] st = st"
| "sub_loop ref_of process max_rows build_search_url crawl category (sub # subs) st =
     (if rs_aborted st \<or> should_stop max_rows st then st
      else sub_loop ref_of process max_rows build_search_url crawl category subs
             (item_loop ref_of (process category sub (build_search_url sub)) max_rows
                (crawl (build_search_url sub)) st))"

fun category_loop ::
  "('a \<Rightarrow> string) \<Rightarrow> (string \<Rightarrow> string \<Rightarrow> string \<Rightarrow> 'a \<Rightarrow> run_state \<Rightarrow> run_state) \<Rightarrow> int
     \<Rightarrow> (string \<Rightarrow> string) \<Rightarrow> (string \<Rightarrow> 'a pulled list) \<Rightarrow> (string \<times> string list) list
     \<Rightarrow> run_state \<Rightarrow> run_state" where
  "category_loop ref_of process max_rows build_search_url crawl [] st = st"
| "category_loop ref_of process max_rows build_search_url crawl ((category, subcats) # cats) st =
     (if rs_aborted st \<or> should_stop max_rows st then st
      else category_loop ref_of process max_rows build_search_url crawl cats
             (sub_loop ref_of process max_rows build_search_url crawl category subcats st))"

text \<open>The state a run starts from: the tables as they are, everything else fresh.\<close>

definition start_state :: "table \<Rightarrow> log_entry list \<Rightarrow> nat \<Rightarrow> run_state" where
  "start_state db log now =
     \<lparr>rs_table = db, rs_log = log, rs_hook_calls = [], rs_fetched = [], rs_yielded = [],
      rs_seen = {}, rs_created = 0, rs_updated = 0, rs_skipped = 0, rs_error = 0,
      rs_clock = now, rs_aborted = False\<rparr>"

section \<open>Orchestration: apprenticeships\<close>

text \<open>\<^verbatim>\<open>a or b or ""\<close> on strings: the first non-empty one.\<close>

fun first_truthy :: "string list \<Rightarrow> string" where
  "first_truthy [] = []"
| "first_truthy (x # xs) = (if x \<noteq> [] then x else first_truthy xs)"

text \<open>
  The columns of \<^verbatim>\<open>ApprenticeshipVacancy\<close> and
  \<^verbatim>\<open>image_field = "image_url" if "image_url" in vacancy_fields else None\<close>.
\<close>

definition vacancy_fields :: "string list" where
  "vacancy_fields = [''id'', ''vacancy_ref'', ''vacancy_url'', ''image_url'', ''category'',
     ''subcategory'', ''title'', ''employer_name'', ''location_summary'', ''closing_text'',
     ''posted_text'', ''summary_text'', ''wage'', ''wage_extra'', ''training_course'', ''hours'',
     ''hours_per_week'', ''start_date'', ''duration'', ''positions_available'', ''work_intro'',
     ''what_youll_do_heading'', ''what_youll_do_items'', ''where_youll_work_name'',
     ''where_youll_work_address'', ''training_intro'', ''training_provider'',
     ''training_course_repeat'', ''what_youll_learn_items'', ''training_schedule'',
     ''more_training_information'', ''essential_qualifications'', ''skills_items'',
     ''other_requirements_items'', ''about_employer'', ''employer_website'',
     ''company_benefits_items'', ''after_this_apprenticeship'', ''contact_name'', ''scraped_at'',
     ''last_checked_at'', ''last_scrape_status'', ''last_scrape_message'', ''last_scrape_run_id'']"

definition image_field :: "string option" where
  "image_field = (if ''image_url'' \<in> set vacancy_fields then Some ''image_url'' else None)"

text \<open>
  The image step of \<^verbatim>\<open>_process_one\<close>, entered when images are enabled and the model
  has an image column. The hook \<^verbatim>\<open>generate_apprenticeship_image_and_upload\<close> is a
  collaborator: given the number of calls made so far, the reference, the title and the employer it
  either raises (\<open>Inl\<close> message) or returns a URL. A failure is logged as
  \<^verbatim>\<open>image_error\<close> and nothing else happens.
\<close>

definition app_image_step ::
  "(nat \<Rightarrow> string \<Rightarrow> string \<Rightarrow> string \<Rightarrow> string + string) \<Rightarrow> nat \<Rightarrow> string \<Rightarrow> string
     \<Rightarrow> string \<Rightarrow> bool \<Rightarrow> string \<Rightarrow> ListedVacancy \<Rightarrow> run_state \<Rightarrow> run_state" where
  "app_image_step hook run_id category subcategory start_url refresh_images img_field listed st =
     (case rs_table st (lv_vacancy_ref listed) of
        None \<Rightarrow>
          log_row run_id category subcategory start_url (lv_vacancy_ref listed)
            ''image_error'' ''ApprenticeshipVacancy matching query does not exist.'' st
      | Some obj \<Rightarrow>
          (let existing_url = strip (text_of (obj img_field)) in
           if refresh_images \<or> existing_url = [] then
             (let title_for_img = strip (first_truthy [text_of (obj ''title''), lv_title listed]);
                  employer_for_img =
                    strip (first_truthy [text_of (obj ''employer_name''), lv_employer_name listed])
              in if title_for_img \<noteq> [] then
                   (let st1 = st\<lparr>rs_hook_calls := rs_hook_calls st @
                                  [(lv_vacancy_ref listed, title_for_img)]\<rparr>
                    in case hook (length (rs_hook_calls st)) (lv_vacancy_ref listed) title_for_img
                              employer_for_img of
                         Inl e \<Rightarrow>
                           log_row run_id category subcategory start_url (lv_vacancy_ref listed)
                             ''image_error'' e st1
                       | Inr url \<Rightarrow>
                           (let cloud_url = strip url in
                            if cloud_url \<noteq> [] \<and> cloud_url \<noteq> existing_url then
                              st1\<lparr>rs_table := (rs_table st1)(lv_vacancy_ref listed \<mapsto>
                                     django_save (rs_clock st1) obj (obj(img_field := Str cloud_url))
                                       [img_field])\<rparr>
                            else st1))
                 else st)
           else st))"

text \<open>
  \<^verbatim>\<open>Command._process_one\<close>: fetch the detail page (which may raise), merge, upsert, run
  the image step, append the terminal log entry and return the status.
\<close>

definition process_one ::
  "(string \<Rightarrow> string + (string \<rightharpoonup> string)) \<Rightarrow> (nat \<Rightarrow> string \<Rightarrow> string \<Rightarrow> string \<Rightarrow> string + string)
     \<Rightarrow> nat \<Rightarrow> bool \<Rightarrow> bool \<Rightarrow> string \<Rightarrow> string \<Rightarrow> string \<Rightarrow> ListedVacancy \<Rightarrow> run_state
     \<Rightarrow> string \<times> run_state" where
  "process_one scrape_vacancy_detail hook run_id no_images refresh_images
       category subcategory start_url listed st =
     (let st0 = st\<lparr>rs_fetched := rs_fetched st @ [lv_url listed]\<rparr> in
      case scrape_vacancy_detail (lv_url listed) of
        Inl e \<Rightarrow>
          (''error'',
           log_row run_id category subcategory start_url (lv_vacancy_ref listed) ''error'' e st0)
      | Inr details \<Rightarrow>
          (let merged = merge_listing details listed;
               ((status, msg), db) =
                  upsert_smart (rs_clock st0) (lv_vacancy_ref listed) (lv_url listed) merged
                    category subcategory run_id (rs_table st0);
               st1 = st0\<lparr>rs_table := db\<rparr>;
               st2 = (case image_field of
                        Some img_field \<Rightarrow>
                          if \<not> no_images then
                            app_image_step hook run_id category subcategory start_url
                              refresh_images img_field listed st1
                          else st1
                      | None \<Rightarrow> st1)
           in (status,
               log_row run_id category subcategory start_url (lv_vacancy_ref listed)
                 status msg st2)))"

text \<open>The body of the loop in \<^verbatim>\<open>handle\<close>: process the item and count its status.\<close>

definition app_handle_item ::
  "(string \<Rightarrow> string + (string \<rightharpoonup> string)) \<Rightarrow> (nat \<Rightarrow> string \<Rightarrow> string \<Rightarrow> string \<Rightarrow> string + string)
     \<Rightarrow> nat \<Rightarrow> bool \<Rightarrow> bool \<Rightarrow> string \<Rightarrow> string \<Rightarrow> string \<Rightarrow> ListedVacancy \<Rightarrow> run_state
     \<Rightarrow> run_state" where
  "app_handle_item scrape_vacancy_detail hook run_id no_images refresh_images
       category subcategory start_url listed st =
     (let (status, st1) = process_one scrape_vacancy_detail hook run_id no_images refresh_images
                            category subcategory start_url listed st;
          st2 = st1\<lparr>rs_clock := Suc (rs_clock st1)\<rparr>
      in if status = ''created'' then st2\<lparr>rs_created := Suc (rs_created st2)\<rparr>
         else if status = ''updated'' then st2\<lparr>rs_updated := Suc (rs_updated st2)\<rparr>
         else if status = ''skipped'' then st2\<lparr>rs_skipped := Suc (rs_skipped st2)\<rparr>
         else st2\<lparr>rs_error := Suc (rs_error st2)\<rparr>)"

text \<open>
  \<^verbatim>\<open>Command.handle\<close>: with a start URL override one listing is crawled with empty
  category and subcategory; otherwise every subcategory of the query plan is crawled in
  order. The seen set spans the whole run.
\<close>

definition app_handle ::
  "(string \<Rightarrow> string + (string \<rightharpoonup> string)) \<Rightarrow> (nat \<Rightarrow> string \<Rightarrow> string \<Rightarrow> string \<Rightarrow> string + string)
     \<Rightarrow> (string \<Rightarrow> string) \<Rightarrow> (string \<Rightarrow> ListedVacancy pulled list)
     \<Rightarrow> nat \<Rightarrow> int \<Rightarrow> string \<Rightarrow> bool \<Rightarrow> bool \<Rightarrow> (string \<times> string list) list
     \<Rightarrow> run_state \<Rightarrow> run_state" where
  "app_handle scrape_vacancy_detail hook build_search_url crawl
       run_id max_rows start_url no_images refresh_images categories st =
     (let start_url_override = strip start_url in
      if start_url_override \<noteq> [] then
        item_loop lv_vacancy_ref
          (app_handle_item scrape_vacancy_detail hook run_id no_images refresh_images
             [] [] start_url_override)
          max_rows (crawl start_url_override) st
      else
        category_loop lv_vacancy_ref
          (app_handle_item scrape_vacancy_detail hook run_id no_images refresh_images)
          max_rows build_search_url crawl categories st)"

section \<open>Ingestion and orchestration: jobs (\<^verbatim>\<open>Command.handle\<close> of \<^verbatim>\<open>scrape_job\<close>)\<close>

text \<open>The columns of \<^verbatim>\<open>DwpJob\<close> (\<^verbatim>\<open>_model_field_names(DwpJob)\<close>).\<close>

definition job_fields :: "string list" where
  "job_fields = [''id'', ''job_id'', ''category'', ''subcategory'', ''job_url'', ''apply_url'',
     ''image_url'', ''title'', ''company'', ''location'', ''posting_date'', ''closing_date'',
     ''hours'', ''job_type'', ''job_reference'', ''salary'', ''remote_working'',
     ''additional_salary_information'', ''disability_confident'', ''listing_snippet'',
     ''summary_intro'', ''summary_bullets'', ''what_youll_do'', ''skills_youll_need'', ''raw_text'',
     ''scraped_at'', ''last_checked_at'', ''last_scrape_status'', ''last_scrape_message'',
     ''last_scrape_run_id'']"

text \<open>
  \<^verbatim>\<open>safe_vals = {k: v for k, v in merged.items() if k in job_fields}\<close>. The order of a
  dictionary's items does not matter to this command (it only tests \<^verbatim>\<open>changed_fields\<close>
  for emptiness and turns it into a set), so the items are listed in column order.
\<close>

definition job_safe_vals :: "(string \<rightharpoonup> pyv) \<Rightarrow> (string \<times> pyv) list" where
  "job_safe_vals merged =
     concat (map (\<lambda>k. case merged k of None \<Rightarrow> [] | Some v \<Rightarrow> [(k, v)]) job_fields)"

definition job_blank :: row where
  "job_blank =
     (\<lambda>f. if f \<in> set [''last_checked_at'', ''last_scrape_run_id'', ''scraped_at''] then PyNone
          else if f = ''disability_confident'' then Bool False
          else Str [])"

text \<open>\<^verbatim>\<open>DwpJob.objects.get_or_create(job_id=job_id, defaults=safe_vals)\<close> when no row exists.\<close>

definition insert_job :: "nat \<Rightarrow> string \<Rightarrow> (string \<times> pyv) list \<Rightarrow> row" where
  "insert_job now job_id defaults =
     fold (\<lambda>(f, v) r. r(f := v)) defaults
       (job_blank(''job_id'' := Str job_id, ''scraped_at'' := Stamp now))"

text \<open>
  \<^verbatim>\<open>if category and not (obj.category or "").strip():
      obj.category = category; changed_fields.append("category")\<close>
\<close>

definition job_backfill :: "string \<Rightarrow> string \<Rightarrow> row \<times> string list \<Rightarrow> row \<times> string list" where
  "job_backfill field val = (\<lambda>(obj, changed_fields).
     if val \<noteq> [] \<and> strip (text_of (obj field)) = []
     then (obj(field := Str val), changed_fields @ [field])
     else (obj, changed_fields))"

text \<open>
  \<^verbatim>\<open>for k, v in safe_vals.items():
      if k in ("category", "subcategory"): continue
      if getattr(obj, k, None) != v: setattr(obj, k, v); changed_fields.append(k)\<close>
\<close>

definition job_diff_field :: "string \<times> pyv \<Rightarrow> row \<times> string list \<Rightarrow> row \<times> string list" where
  "job_diff_field = (\<lambda>(k, v) (obj, changed_fields).
     if k \<in> set [''category'', ''subcategory''] then (obj, changed_fields)
     else if obj k \<noteq> v then (obj(k := v), changed_fields @ [k])
     else (obj, changed_fields))"

definition job_changes ::
  "(string \<times> pyv) list \<Rightarrow> string \<Rightarrow> string \<Rightarrow> row \<Rightarrow> row \<times> string list" where
  "job_changes safe_vals category subcategory stored =
     fold job_diff_field safe_vals
       (job_backfill ''subcategory'' subcategory (job_backfill ''category'' category (stored, [])))"

text \<open>
  The image step, taken on every scrape unless images are disabled. The hook
  \<^verbatim>\<open>generate_and_upload_job_image\<close> is a collaborator: given the number of calls made so
  far, the job id and the title it either raises or returns a URL.
\<close>

definition job_image_step ::
  "(nat \<Rightarrow> string \<Rightarrow> string \<Rightarrow> string + string) \<Rightarrow> nat \<Rightarrow> string \<Rightarrow> string \<Rightarrow> string
     \<Rightarrow> ListedJob \<Rightarrow> (string \<times> pyv) list \<Rightarrow> row \<times> string list \<times> run_state
     \<Rightarrow> row \<times> string list \<times> run_state" where
  "job_image_step hook run_id category subcategory start_url listed safe_vals =
     (\<lambda>(obj, changed_fields, st).
        let title_for_img =
              strip (first_truthy [text_of (case map_of safe_vals ''title'' of
                                              None \<Rightarrow> PyNone | Some v \<Rightarrow> v),
                                   text_of (obj ''title''), lj_title listed])
        in if title_for_img \<noteq> [] then
             (let st1 = st\<lparr>rs_hook_calls := rs_hook_calls st @ [(lj_job_id listed, title_for_img)]\<rparr>
              in case hook (length (rs_hook_calls st)) (lj_job_id listed) title_for_img of
                   Inl e \<Rightarrow>
                     (obj, changed_fields,
                      log_row run_id category subcategory start_url (lj_job_id listed)
                        ''image_error'' e st1)
                 | Inr img_url \<Rightarrow>
                     if img_url \<noteq> [] \<and> obj ''image_url'' \<noteq> Str img_url
                     then (obj(''image_url'' := Str img_url), changed_fields @ [''image_url''], st1)
                     else (obj, changed_fields, st1))
           else (obj, changed_fields, st))"

text \<open>
  The body of the innermost loop of \<^verbatim>\<open>handle\<close> for one listed job that has not been
  seen: fetch the detail page (which may raise), merge, get or create the row, diff, run
  the image step, decide the status, save and append the terminal log entry.
\<close>

definition process_job ::
  "(string \<Rightarrow> string + (string \<rightharpoonup> pyv)) \<Rightarrow> (nat \<Rightarrow> string \<Rightarrow> string \<Rightarrow> string + string)
     \<Rightarrow> nat \<Rightarrow> bool \<Rightarrow> string \<Rightarrow> string \<Rightarrow> string \<Rightarrow> ListedJob \<Rightarrow> run_state \<Rightarrow> run_state" where
  "process_job scrape_job_detail hook run_id no_images category subcategory start_url listed st =
     (let job_id = lj_job_id listed;
          now = rs_clock st;
          st0 = st\<lparr>rs_fetched := rs_fetched st @ [lj_url listed], rs_clock := Suc (rs_clock st)\<rparr>
      in case scrape_job_detail (lj_url listed) of
           Inl e \<Rightarrow>
             log_row run_id category subcategory start_url job_id ''error'' e
               (st0\<lparr>rs_error := Suc (rs_error st0)\<rparr>)
         | Inr details \<Rightarrow>
             (let merged = merge_job details listed category subcategory;
                  safe_vals = job_safe_vals merged;
                  was_created = (rs_table st0 job_id = None);
                  stored = (case rs_table st0 job_id of
                              None \<Rightarrow> insert_job now job_id safe_vals
                            | Some r \<Rightarrow> r);
                  (obj1, changed1) =
                     (if was_created then (stored, [])
                      else job_changes safe_vals category subcategory stored);
                  (obj2, changed_fields, st1) =
                     (if \<not> no_images \<and> ''image_url'' \<in> set job_fields
                      then job_image_step hook run_id category subcategory start_url listed
                             safe_vals (obj1, changed1, st0)
                      else (obj1, changed1, st0));
                  status = (if was_created then ''created''
                            else if changed_fields \<noteq> [] then ''updated'' else ''skipped'');
                  st2 = (if was_created then st1\<lparr>rs_created := Suc (rs_created st1)\<rparr>
                         else if changed_fields \<noteq> []
                              then st1\<lparr>rs_updated := Suc (rs_updated st1)\<rparr>
                              else st1\<lparr>rs_skipped := Suc (rs_skipped st1)\<rparr>);
                  obj3 = obj2(''last_checked_at'' := Stamp now,
                              ''last_scrape_run_id'' := Uuid run_id,
                              ''last_scrape_status'' := Str status,
                              ''last_scrape_message'' := Str []);
                  saved = (if was_created then obj3(''scraped_at'' := Stamp now)
                           else django_save now stored obj3
                                  (changed_fields @
                                   [''last_checked_at'', ''last_scrape_run_id'',
                                    ''last_scrape_status'', ''last_scrape_message'',
                                    ''scraped_at'']))
              in log_row run_id category subcategory start_url job_id status []
                   (st2\<lparr>rs_table := (rs_table st2)(job_id \<mapsto> saved)\<rparr>)))"

definition job_handle ::
  "(string \<Rightarrow> string + (string \<rightharpoonup> pyv)) \<Rightarrow> (nat \<Rightarrow> string \<Rightarrow> string \<Rightarrow> string + string)
     \<Rightarrow> (string \<Rightarrow> string) \<Rightarrow> (string \<Rightarrow> ListedJob pulled list)
     \<Rightarrow> nat \<Rightarrow> int \<Rightarrow> bool \<Rightarrow> (string \<times> string list) list \<Rightarrow> run_state \<Rightarrow> run_state" where
  "job_handle scrape_job_detail hook build_search_url crawl run_id max_rows no_images categories st =
     category_loop lj_job_id (process_job scrape_job_detail hook run_id no_images)
       max_rows build_search_url crawl categories st"


section \<open>Reading the audit log of a run\<close>

text \<open>
  A terminal entry carries the outcome of one item; for a reference, the terminal entries
  and the image failures recorded in a stretch of the log.
\<close>

definition terminal :: "log_entry \<Rightarrow> bool" where
  "terminal e \<longleftrightarrow> le_status e \<in> set [''error'', ''created'', ''updated'', ''skipped'']"

definition terminal_for :: "string \<Rightarrow> log_entry list \<Rightarrow> log_entry list" where
  "terminal_for r es = filter (\<lambda>e. le_ref e = r \<and> terminal e) es"

definition image_errors_for :: "string \<Rightarrow> log_entry list \<Rightarrow> log_entry list" where
  "image_errors_for r es = filter (\<lambda>e. le_ref e = r \<and> le_status e = ''image_error'') es"

text \<open>
  What the loops of \<^verbatim>\<open>handle\<close> rely on from the body that processes one item: it
  appends at most one image failure and then one terminal entry for the item, requests one
  detail page, calls the image hook at most once, and leaves the seen set, the trace of
  pulled items and the abort flag alone.
\<close>

definition handles_one :: "('a \<Rightarrow> string) \<Rightarrow> ('a \<Rightarrow> run_state \<Rightarrow> run_state) \<Rightarrow> bool" where
  "handles_one ref_of process \<longleftrightarrow>
     (\<forall>x st. \<exists>img t.
        rs_log (process x st) = rs_log st @ img @ [t] \<and>
        le_ref t = ref_of x \<and> terminal t \<and> length img \<le> 1 \<and>
        (\<forall>e \<in> set img. le_ref e = ref_of x \<and> le_status e = ''image_error'') \<and>
        rs_seen (process x st) = rs_seen st \<and>
        rs_yielded (process x st) = rs_yielded st \<and>
        rs_aborted (process x st) = rs_aborted st \<and>
        length (rs_fetched (process x st)) = Suc (length (rs_fetched st)) \<and>
        length (rs_hook_calls (process x st)) \<le> Suc (length (rs_hook_calls st)))"

text \<open>
  The invariant of a run that started with the log \<open>log0\<close>: the log has only grown, and
  the references handled so far (the seen set) are exactly the references with a terminal
  entry, one each, with one detail page requested for each.
\<close>

definition run_inv :: "log_entry list \<Rightarrow> run_state \<Rightarrow> bool" where
  "run_inv log0 st \<longleftrightarrow>
     (\<exists>new. rs_log st = log0 @ new \<and>
        (\<forall>r. length (terminal_for r new) = (if r \<in> rs_seen st then 1 else 0)) \<and>
        (\<forall>r. length (image_errors_for r new) \<le> length (terminal_for r new)) \<and>
        distinct (map le_ref (filter terminal new)) \<and>
        set (map le_ref (filter terminal new)) = rs_seen st \<and>
        finite (rs_seen st) \<and> card (rs_seen st) = length (rs_fetched st) \<and>
        length (rs_hook_calls st) \<le> length (rs_fetched st) \<and>
        rs_seen st \<subseteq> set (rs_yielded st))"



section \<open>Listing crawler: pagination (\<^verbatim>\<open>iter_pages\<close>)\<close>

text \<open>
  \<^verbatim>\<open>seen = set(); url = start_url
  while url and url not in seen:
      seen.add(url); s = self.soup(url); yield url, s
      url = self._next_url(s, current=url)\<close>
  The fetch \<^verbatim>\<open>soup\<close> either raises (\<open>Inl\<close>) or returns a page; \<^verbatim>\<open>_next_url\<close> gives
  the next URL of a page, if it has one. The loop need not end (a site may serve fresh
  URLs forever), so the result is an option: \<open>None\<close> is a loop that never returns.
  A returned result is the list of pages yielded, in order, and the failed fetch if one
  ended the iteration.
\<close>

partial_function (option) iter_pages_loop ::
  "(string \<Rightarrow> string + 'p) \<Rightarrow> ('p \<Rightarrow> string \<Rightarrow> string option) \<Rightarrow> string set \<Rightarrow> string option
     \<Rightarrow> (string \<times> 'p) list \<Rightarrow> ((string \<times> 'p) list \<times> (string \<times> string) option) option" where
  "iter_pages_loop soup next_url seen url yielded =
     (case url of
        None \<Rightarrow> Some (yielded, None)
      | Some u \<Rightarrow>
          if u = [] \<or> u \<in> seen then Some (yielded, None)
          else (case soup u of
                  Inl e \<Rightarrow> Some (yielded, Some (u, e))
                | Inr s \<Rightarrow>
                    iter_pages_loop soup next_url (insert u seen) (next_url s u)
                      (yielded @ [(u, s)])))"

definition iter_pages ::
  "(string \<Rightarrow> string + 'p) \<Rightarrow> ('p \<Rightarrow> string \<Rightarrow> string option) \<Rightarrow> string
     \<Rightarrow> ((string \<times> 'p) list \<times> (string \<times> string) option) option" where
  "iter_pages soup next_url start_url = iter_pages_loop soup next_url {} (Some start_url) []"

text \<open>
  The chain of next-page links from a start URL: the URL reached after \<open>n\<close> steps, if
  every page before it could be fetched and had a next link.
\<close>

fun chain :: "(string \<Rightarrow> string + 'p) \<Rightarrow> ('p \<Rightarrow> string \<Rightarrow> string option) \<Rightarrow> string \<Rightarrow> nat
    \<Rightarrow> string option" where
  "chain soup next_url start_url 0 = Some start_url"
| "chain soup next_url start_url (Suc n) =
     (case chain soup next_url start_url n of
        None \<Rightarrow> None
      | Some u \<Rightarrow> (case soup u of Inl e \<Rightarrow> None | Inr s \<Rightarrow> next_url s u))"

text \<open>
  The chain ends at step \<open>n\<close>: there is no URL (no next link, or the page before could
  not be fetched), the URL is empty, or it revisits an earlier one.
\<close>

definition chain_ends :: "(string \<Rightarrow> string + 'p) \<Rightarrow> ('p \<Rightarrow> string \<Rightarrow> string option) \<Rightarrow> string \<Rightarrow> nat
    \<Rightarrow> bool" where
  "chain_ends soup next_url start_url n \<longleftrightarrow>
     chain soup next_url start_url n = None \<or>
     chain soup next_url start_url n = Some [] \<or>
     list_ex (\<lambda>m. chain soup next_url start_url m = chain soup next_url start_url n) [0..<n]"

text \<open>The URLs a result shows to have been requested: the pages yielded and a failed fetch.\<close>

definition requested :: "(string \<times> 'p) list \<times> (string \<times> string) option \<Rightarrow> string list" where
  "requested res = map fst (fst res) @ (case snd res of None \<Rightarrow> [] | Some (u, e) \<Rightarrow> [u])"

subsection \<open>A three-page fixture\<close>

text \<open>Pages are represented by their next link; page 3 has none.\<close>

definition fixture_soup :: "string \<Rightarrow> string + string option" where
  "fixture_soup u =
     (if u = ''/list?page=1'' then Inr (Some ''/list?page=2'')
      else if u = ''/list?page=2'' then Inr (Some ''/list?page=3'')
      else if u = ''/list?page=3'' then Inr None
      else Inl ''404 Not Found'')"

definition fixture_next :: "string option \<Rightarrow> string \<Rightarrow> string option" where
  "fixture_next s current = s"

section \<open>Document model\<close>

text \<open>
  A parsed document is a tree of tags (name, attributes, children) and text nodes. A
  node is addressed by its path from the root (the indices of the children to follow), so
  that the parent of a node is the path without its last index and the root has no
  parent.
\<close>

datatype dom = Tag string "(string \<times> string) list" "dom list" | Text string

fun subtree :: "dom \<Rightarrow> nat list \<Rightarrow> dom option" where
  "subtree d [] = Some d"
| "subtree (Tag n as cs) (i # p) = (if i < length cs then subtree (cs ! i) p else None)"
| "subtree (Text s) (i # p) = None"

text \<open>The paths of all proper descendants of a node, in document order.\<close>

fun paths :: "dom \<Rightarrow> nat list list"
  and paths_from :: "nat \<Rightarrow> dom list \<Rightarrow> nat list list" where
  "paths (Text s) = []"
| "paths (Tag n as cs) = paths_from 0 cs"
| "paths_from i [] = []"
| "paths_from i (c # cs) = ([i] # map ((#) i) (paths c)) @ paths_from (Suc i) cs"

fun strings_of :: "dom \<Rightarrow> string list"
  and strings_of_list :: "dom list \<Rightarrow> string list" where
  "strings_of (Text s) = [s]"
| "strings_of (Tag n as cs) = strings_of_list cs"
| "strings_of_list [] = []"
| "strings_of_list (c # cs) = strings_of c @ strings_of_list cs"

text \<open>\<^verbatim>\<open>node.get_text(sep, strip=True)\<close>\<close>

definition get_text_strip :: "string \<Rightarrow> dom \<Rightarrow> string" where
  "get_text_strip sep t = join sep (filter (\<lambda>s. s \<noteq> []) (map strip (strings_of t)))"

fun tag_name :: "dom \<Rightarrow> string option" where
  "tag_name (Tag n as cs) = Some n"
| "tag_name (Text s) = None"

text \<open>\<^verbatim>\<open>a.get("href") or ""\<close>\<close>

fun href_of :: "dom \<Rightarrow> string" where
  "href_of (Tag n as cs) = (case map_of as ''href'' of None \<Rightarrow> [] | Some h \<Rightarrow> h)"
| "href_of (Text s) = []"

fun has_href :: "dom \<Rightarrow> bool" where
  "has_href (Tag n as cs) = (n = ''a'' \<and> map_of as ''href'' \<noteq> None)"
| "has_href (Text s) = False"

text \<open>\<^verbatim>\<open>node.select("a[href]")\<close>: the anchors below a node that carry a link.\<close>

definition select_a_href :: "dom \<Rightarrow> nat list list" where
  "select_a_href t =
     filter (\<lambda>p. case subtree t p of None \<Rightarrow> False | Some d \<Rightarrow> has_href d) (paths t)"

definition href_at :: "dom \<Rightarrow> nat list \<Rightarrow> string" where
  "href_at t p = (case subtree t p of None \<Rightarrow> [] | Some d \<Rightarrow> href_of d)"

text \<open>\<^verbatim>\<open>soup.find("main") or soup\<close>, as a path.\<close>

definition main_path :: "dom \<Rightarrow> nat list" where
  "main_path root =
     (case filter (\<lambda>p. case subtree root p of None \<Rightarrow> False
                        | Some d \<Rightarrow> tag_name d = Some ''main'') (paths root) of
        [] \<Rightarrow> []
      | p # _ \<Rightarrow> p)"

text \<open>\<^verbatim>\<open>node.parent if isinstance(node.parent, Tag) else None\<close>\<close>

definition parent_path :: "nat list \<Rightarrow> nat list option" where
  "parent_path p = (if p = [] then None else Some (butlast p))"

section \<open>Extraction primitives: identifiers and the card boundary\<close>

definition is_digit :: "char \<Rightarrow> bool" where
  "is_digit c \<longleftrightarrow> c \<in> set ''0123456789''"

definition is_word_char :: "char \<Rightarrow> bool" where
  "is_word_char c \<longleftrightarrow>
     c \<in> set ''abcdefghijklmnopqrstuvwxyzABCDEFGHIJKLMNOPQRSTUVWXYZ0123456789_''"

definition upper_char :: "char \<Rightarrow> char" where
  "upper_char c =
     (case map_of (zip ''abcdefghijklmnopqrstuvwxyz'' ''ABCDEFGHIJKLMNOPQRSTUVWXYZ'') c of
        Some d \<Rightarrow> d
      | None \<Rightarrow> c)"

definition upper :: "string \<Rightarrow> string" where
  "upper s = map upper_char s"

subsection \<open>Jobs\<close>

text \<open>
  Group 1 of \<^verbatim>\<open>DETAILS_RE.search(href)\<close> for
  \<^verbatim>\<open>(?:https?://findajob\.dwp\.gov\.uk)?/?details/(\d+)\<close> (case-insensitive): the
  optional host and slash cannot overlap an occurrence of \<^verbatim>\<open>details/\<close>, so the
  leftmost match takes the digits that follow the first \<^verbatim>\<open>details/\<close> that has a digit
  after it.
\<close>

fun details_id :: "string \<Rightarrow> string option" where
  "details_id [] = None"
| "details_id (c # cs) =
     (if lower (take 8 (c # cs)) = ''details/'' \<and> takeWhile is_digit (drop 8 (c # cs)) \<noteq> []
      then Some (takeWhile is_digit (drop 8 (c # cs)))
      else details_id cs)"

text \<open>\<^verbatim>\<open>DwpJobClient._job_ids_in_node\<close>\<close>

definition job_ids_in_node :: "dom \<Rightarrow> string set" where
  "job_ids_in_node node =
     set (List.map_filter (\<lambda>p. details_id (href_at node p)) (select_a_href node))"

text \<open>
  \<^verbatim>\<open>DwpJobClient._find_result_card\<close>: at most 15 nodes are examined, the link itself
  first and then its ancestors.
\<close>

fun job_card_loop :: "nat \<Rightarrow> dom \<Rightarrow> nat list option \<Rightarrow> string \<Rightarrow> nat list option" where
  "job_card_loop 0 root node job_id = None"
| "job_card_loop (Suc k) root node job_id =
     (case node of
        None \<Rightarrow> None
      | Some p \<Rightarrow>
          (case subtree root p of
             None \<Rightarrow> None
           | Some (Text s) \<Rightarrow> None
           | Some (Tag n as cs) \<Rightarrow>
               (let ids = job_ids_in_node (Tag n as cs) in
                if ids \<noteq> {} \<and> ids = {job_id} then Some p
                else job_card_loop k root (parent_path p) job_id)))"

definition job_find_result_card :: "dom \<Rightarrow> nat list \<Rightarrow> string \<Rightarrow> nat list option" where
  "job_find_result_card root link job_id = job_card_loop 15 root (Some link) job_id"

text \<open>\<^verbatim>\<open>a.find_parent(["h2", "h3", "h4"])\<close>: some proper ancestor is such a heading.\<close>

definition has_heading_parent :: "dom \<Rightarrow> nat list \<Rightarrow> bool" where
  "has_heading_parent root p =
     list_ex (\<lambda>k. case subtree root (take k p) of
                    None \<Rightarrow> False
                  | Some d \<Rightarrow> tag_name d \<in> Some ` set [''h2'', ''h3'', ''h4''])
       [0..<length p]"

text \<open>The de-duplication at the end of the listing extractors: the first item per identifier.\<close>

fun dedup_by :: "('a \<Rightarrow> string) \<Rightarrow> string set \<Rightarrow> 'a list \<Rightarrow> 'a list" where
  "dedup_by ref_of seen [] = []"
| "dedup_by ref_of seen (x # xs) =
     (if ref_of x \<in> seen then dedup_by ref_of seen xs
      else x # dedup_by ref_of (insert (ref_of x) seen) xs)"

text \<open>
  \<^verbatim>\<open>DwpJobClient._extract_jobs_from_list\<close>. The provisional fields other than the
  identifier, the URL and the title are read off the card's text lines by pickers
  (\<^verbatim>\<open>_first_match\<close>, \<^verbatim>\<open>_pick_company_location\<close>, \<^verbatim>\<open>_pick_salary\<close>, ...) that are
  passed in as \<open>populate\<close>; \<^verbatim>\<open>abs_url\<close> is \<^verbatim>\<open>urljoin\<close>.
\<close>

definition job_stub ::
  "(string \<Rightarrow> string) \<Rightarrow> (dom \<Rightarrow> string \<Rightarrow> ListedJob) \<Rightarrow> dom \<Rightarrow> nat list \<Rightarrow> ListedJob option" where
  "job_stub abs_url populate root a =
     (let href = href_at root a in
      case details_id href of
        None \<Rightarrow> None
      | Some job_id \<Rightarrow>
          if \<not> has_heading_parent root a then None
          else (let title = clean (get_text_strip '' '' (the (subtree root a))) in
                if title = [] then None
                else (case job_find_result_card root a job_id of
                        None \<Rightarrow> None
                      | Some card_path \<Rightarrow>
                          Some ((populate (the (subtree root card_path)) title)
                                  \<lparr>lj_job_id := job_id, lj_url := abs_url href,
                                   lj_title := title\<rparr>))))"

definition job_anchors :: "dom \<Rightarrow> nat list list" where
  "job_anchors root =
     map ((@) (main_path root)) (select_a_href (the (subtree root (main_path root))))"

definition extract_jobs_from_list ::
  "(string \<Rightarrow> string) \<Rightarrow> (dom \<Rightarrow> string \<Rightarrow> ListedJob) \<Rightarrow> dom \<Rightarrow> ListedJob list" where
  "extract_jobs_from_list abs_url populate root =
     dedup_by lj_job_id {} (List.map_filter (job_stub abs_url populate root) (job_anchors root))"

subsection \<open>Apprenticeships\<close>

text \<open>
  Group 1 of \<^verbatim>\<open>VACANCY_PATH_RE.match(href)\<close> for \<^verbatim>\<open>^/apprenticeship/(VAC\d+)\b\<close>
  (case-insensitive): the digits are taken greedily and the word boundary holds only after
  the whole run of digits, when the text ends or a non-word character follows.
\<close>

definition vacancy_ref_of :: "string \<Rightarrow> string option" where
  "vacancy_ref_of href =
     (if lower (take 16 href) = ''/apprenticeship/'' \<and> lower (take 3 (drop 16 href)) = ''vac''
      then (let ds = takeWhile is_digit (drop 19 href);
                rest = dropWhile is_digit (drop 19 href)
            in if ds \<noteq> [] \<and> (case rest of [] \<Rightarrow> True | c # _ \<Rightarrow> \<not> is_word_char c)
               then Some (take 3 (drop 16 href) @ ds) else None)
      else None)"

text \<open>\<^verbatim>\<open>node.select('a[href^="/apprenticeship/"]')\<close>\<close>

definition select_vacancy_links :: "dom \<Rightarrow> nat list list" where
  "select_vacancy_links t =
     filter (\<lambda>p. case subtree t p of
                   None \<Rightarrow> False
                 | Some d \<Rightarrow> has_href d \<and> startswith (href_of d) ''/apprenticeship/'')
       (paths t)"

text \<open>\<^verbatim>\<open>NcsApprenticeshipClient._vac_refs_in_node\<close>\<close>

definition vac_refs_in_node :: "dom \<Rightarrow> string set" where
  "vac_refs_in_node node =
     set (List.map_filter (\<lambda>p. map_option upper (vacancy_ref_of (href_at node p)))
            (select_vacancy_links node))"

text \<open>\<^verbatim>\<open>lab in txt\<close>: the label occurs somewhere in the text.\<close>

fun contains :: "string \<Rightarrow> string \<Rightarrow> bool" where
  "contains [] lab = (lab = [])"
| "contains (c # cs) lab = (startswith (c # cs) lab \<or> contains cs lab)"

definition card_labels :: "string list" where
  "card_labels = [''Start date'', ''Training course'', ''Wage'', ''Closes'', ''Posted'']"

definition container_tags :: "string list" where
  "container_tags = [''article'', ''li'', ''section'', ''div'']"

text \<open>
  \<^verbatim>\<open>hits = sum(1 for lab in (...) if lab in txt)
  hits >= 2 or node.name in ("article", "li", "section", "div")\<close>
\<close>

definition card_confirmed :: "dom \<Rightarrow> bool" where
  "card_confirmed node =
     (let txt = get_text_strip '' '' node;
          hits = length (filter (\<lambda>lab. contains txt lab) card_labels)
      in 2 \<le> hits \<or> tag_name node \<in> Some ` set container_tags)"

text \<open>
  \<^verbatim>\<open>NcsApprenticeshipClient._find_result_card\<close>: as for jobs, but an ancestor with the
  right identifier set must also show two of the card labels in its text or be a
  container tag.
\<close>

fun app_card_loop :: "nat \<Rightarrow> dom \<Rightarrow> nat list option \<Rightarrow> string \<Rightarrow> nat list option" where
  "app_card_loop 0 root node vacancy_ref = None"
| "app_card_loop (Suc k) root node vacancy_ref =
     (case node of
        None \<Rightarrow> None
      | Some p \<Rightarrow>
          (case subtree root p of
             None \<Rightarrow> None
           | Some (Text s) \<Rightarrow> None
           | Some (Tag n as cs) \<Rightarrow>
               (let refs = vac_refs_in_node (Tag n as cs) in
                if refs \<noteq> {} \<and> refs = {vacancy_ref} \<and> card_confirmed (Tag n as cs)
                then Some p
                else app_card_loop k root (parent_path p) vacancy_ref)))"

definition app_find_result_card :: "dom \<Rightarrow> nat list \<Rightarrow> string \<Rightarrow> nat list option" where
  "app_find_result_card root link vacancy_ref = app_card_loop 15 root (Some link) vacancy_ref"

text \<open>
  \<^verbatim>\<open>NcsApprenticeshipClient._extract_vacancies_from_list\<close>, with the pickers of the
  provisional fields passed in as \<open>populate\<close>.
\<close>

definition vacancy_stub ::
  "(string \<Rightarrow> string) \<Rightarrow> (dom \<Rightarrow> string \<Rightarrow> ListedVacancy) \<Rightarrow> dom \<Rightarrow> nat list
     \<Rightarrow> ListedVacancy option" where
  "vacancy_stub abs_url populate root a =
     (let href = href_at root a in
      case vacancy_ref_of href of
        None \<Rightarrow> None
      | Some m \<Rightarrow>
          (let vacancy_ref = upper m;
               title = clean (get_text_strip '' '' (the (subtree root a)))
           in case app_find_result_card root a vacancy_ref of
                None \<Rightarrow> None
              | Some card_path \<Rightarrow>
                  Some ((populate (the (subtree root card_path)) title)
                          \<lparr>lv_vacancy_ref := vacancy_ref, lv_url := abs_url href,
                           lv_title := title\<rparr>)))"

definition vacancy_anchors :: "dom \<Rightarrow> nat list list" where
  "vacancy_anchors root =
     map ((@) (main_path root)) (select_vacancy_links (the (subtree root (main_path root))))"

definition extract_vacancies_from_list ::
  "(string \<Rightarrow> string) \<Rightarrow> (dom \<Rightarrow> string \<Rightarrow> ListedVacancy) \<Rightarrow> dom \<Rightarrow> ListedVacancy list" where
  "extract_vacancies_from_list abs_url populate root =
     dedup_by lv_vacancy_ref {}
       (List.map_filter (vacancy_stub abs_url populate root) (vacancy_anchors root))"

subsection \<open>Ancestors\<close>

text \<open>
  \<open>climbed link c\<close> is how many parents lie between a link and its ancestor \<open>c\<close>
  (the link itself counts as its own ancestor at distance 0).
\<close>

definition is_ancestor :: "nat list \<Rightarrow> nat list \<Rightarrow> bool" where
  "is_ancestor c link \<longleftrightarrow> take (length c) link = c"

definition climbed :: "nat list \<Rightarrow> nat list \<Rightarrow> nat" where
  "climbed link c = length link - length c"

subsection \<open>An example listing page\<close>

definition listing_page :: dom where
  "listing_page =
     Tag ''html'' []
       [Tag ''main'' []
          [Tag ''div'' [(''class'', ''search-result'')]
             [Tag ''h3'' [] [Tag ''a'' [(''href'', ''/details/17'')] [Text ''Chef'']],
              Tag ''p'' [] [Text ''A busy kitchen needs a chef'']],
           Tag ''div'' [(''class'', ''search-result'')]
             [Tag ''h3'' [] [Tag ''a'' [(''href'', ''/details/18'')] [Text ''Cook'']]]]]"

definition vacancy_page :: dom where
  "vacancy_page =
     Tag ''html'' []
       [Tag ''main'' []
          [Tag ''ul'' []
             [Tag ''li'' []
                [Tag ''a'' [(''href'', ''/apprenticeship/VAC1000'')] [Text ''Chef'']],
              Tag ''li'' []
                [Tag ''a'' [(''href'', ''/apprenticeship/vac1001'')] [Text ''Cook'']]]]]"

definition plain_job :: "dom \<Rightarrow> string \<Rightarrow> ListedJob" where
  "plain_job card_dom title = stub_job []"

definition plain_vacancy :: "dom \<Rightarrow> string \<Rightarrow> ListedVacancy" where
  "plain_vacancy card_dom title = stub_vacancy []"

text \<open>A heading that holds links to two different items: neither link has a card.\<close>

definition crowded_page :: dom where
  "crowded_page =
     Tag ''main'' []
       [Tag ''h3'' []
          [Tag ''a'' [(''href'', ''/details/1'')] [Text ''Chef''],
           Tag ''a'' [(''href'', ''/details/2'')] [Text ''Cook'']]]"

definition crowded_vacancies :: dom where
  "crowded_vacancies =
     Tag ''main'' []
       [Tag ''li'' []
          [Tag ''a'' [(''href'', ''/apprenticeship/VAC1'')] [Text ''Chef''],
           Tag ''a'' [(''href'', ''/apprenticeship/VAC2'')] [Text ''Cook'']]]"


subsection \<open>Example runs\<close>

text \<open>
  A listing of two items, a run over it with a row ceiling of one and a run without
  ceiling, for each vertical; images are disabled and every detail page is the same.
\<close>

definition two_vacancies :: "string \<Rightarrow> ListedVacancy pulled list" where
  "two_vacancies url =
     [Item (stub_vacancy []),
      Item ((stub_vacancy [])\<lparr>lv_vacancy_ref := ''VAC2'', lv_url := ''/apprenticeship/VAC2''\<rparr>)]"

definition two_jobs :: "string \<Rightarrow> ListedJob pulled list" where
  "two_jobs url =
     [Item (stub_job []),
      Item ((stub_job [])\<lparr>lj_job_id := ''18'', lj_url := ''/details/18''\<rparr>)]"



text \<open>Runs over two queries whose listings hold the same two items.\<close>

definition repeated_vacancy_run :: run_state where
  "repeated_vacancy_run =
     app_handle (\<lambda>u. Inr chef_data) (\<lambda>n r t e. Inr ''http://img/1'') id two_vacancies
       7 0 [] True False [(''Health'', [''Chef'']), (''Care'', [''Cook''])]
       (start_state Map.empty [] 1)"

definition repeated_job_run :: run_state where
  "repeated_job_run =
     job_handle (\<lambda>u. Inr Map.empty) (\<lambda>n r t. Inr ''http://img/1'') id two_jobs
       7 0 True [(''Health'', [''Chef'']), (''Care'', [''Cook''])] (start_state Map.empty [] 1)"

section \<open>Properties of the Merge Engine\<close>























section \<open>Properties of the label/value lookup\<close>










section \<open>Properties of the apprenticeship upsert\<close>

lemma supplied_Cons:
  "supplied ((k, v) # nv) = (if k \<in> set stamp_fields then supplied nv else (k, v) # supplied nv)"
  by (simp add: supplied_def)

lemma supplied_subset: "set (supplied nv) \<subseteq> set nv"
  by (auto simp: supplied_def)

lemma differing_upd_other:
  "k \<notin> fst ` set nv \<Longrightarrow> differing nv (obj(k := v)) = differing nv obj"
proof -
  assume k: "k \<notin> fst ` set nv"
  have "filter (\<lambda>(f, w). (obj(k := v)) f \<noteq> w) (supplied nv)
        = filter (\<lambda>(f, w). obj f \<noteq> w) (supplied nv)"
  proof (rule filter_cong [OF refl])
    fix x assume "x \<in> set (supplied nv)"
    then have "x \<in> set nv" using supplied_subset by blast
    then have "fst x \<noteq> k" using k by force
    then show "(case x of (f, w) \<Rightarrow> (obj(k := v)) f \<noteq> w) = (case x of (f, w) \<Rightarrow> obj f \<noteq> w)"
      by (cases x) simp
  qed
  then show ?thesis by (simp add: differing_def)
qed

lemma map_of_supplied_None:
  "k \<notin> fst ` set nv \<Longrightarrow> map_of (supplied nv) k = None"
  using supplied_subset [of nv] by (force simp: map_of_eq_None_iff)

lemma fold_diff_field:
  "distinct (map fst nv) \<Longrightarrow>
   fold diff_field nv (obj, ch) =
     ((\<lambda>f. case map_of (supplied nv) f of Some v \<Rightarrow> v | None \<Rightarrow> obj f),
      ch @ differing nv obj)"
proof (induction nv arbitrary: obj ch)
  case Nil
  then show ?case by (simp add: supplied_def differing_def)
next
  case (Cons kv nv)
  obtain k v where kv: "kv = (k, v)" by (cases kv)
  from Cons.prems kv have k: "k \<notin> fst ` set nv" and d: "distinct (map fst nv)"
    by auto
  show ?case
  proof (cases "k \<in> set stamp_fields")
    case True
    then have "diff_field kv (obj, ch) = (obj, ch)"
      by (simp add: kv diff_field_def stamp_fields_def)
    moreover from True have "supplied (kv # nv) = supplied nv"
      by (simp add: kv supplied_Cons)
    ultimately show ?thesis
      using Cons.IH [OF d, of obj ch] by (simp add: differing_def)
  next
    case False
    note notstamp = False
    show ?thesis
    proof (cases "obj k = v")
      case True
      with notstamp have step: "diff_field kv (obj, ch) = (obj, ch)"
        by (simp add: kv diff_field_def stamp_fields_def)
      from notstamp have sup: "supplied (kv # nv) = (k, v) # supplied nv"
        by (simp add: kv supplied_Cons)
      have f: "(\<lambda>f. case map_of (supplied nv) f of Some w \<Rightarrow> w | None \<Rightarrow> obj f)
            = (\<lambda>f. case map_of (supplied (kv # nv)) f of Some w \<Rightarrow> w | None \<Rightarrow> obj f)"
        using True map_of_supplied_None [OF k] by (auto simp: fun_eq_iff sup)
      have g: "differing (kv # nv) obj = differing nv obj"
        using True by (simp add: differing_def sup)
      have "fold diff_field (kv # nv) (obj, ch) = fold diff_field nv (obj, ch)"
        using step by simp
      also have "\<dots> = ((\<lambda>f. case map_of (supplied nv) f of Some v \<Rightarrow> v | None \<Rightarrow> obj f),
          ch @ differing nv obj)"
        by (rule Cons.IH [OF d])
      finally show ?thesis
        by (simp only: f g)
    next
      case False
      with notstamp have step: "diff_field kv (obj, ch) = (obj(k := v), ch @ [k])"
        by (simp add: kv diff_field_def stamp_fields_def)
      from notstamp have sup: "supplied (kv # nv) = (k, v) # supplied nv"
        by (simp add: kv supplied_Cons)
      have f: "(\<lambda>f. case map_of (supplied nv) f of Some w \<Rightarrow> w | None \<Rightarrow> (obj(k := v)) f)
            = (\<lambda>f. case map_of (supplied (kv # nv)) f of Some w \<Rightarrow> w | None \<Rightarrow> obj f)"
        using map_of_supplied_None [OF k] by (auto simp: fun_eq_iff sup split: option.splits)
      have g: "(ch @ [k]) @ differing nv (obj(k := v)) = ch @ differing (kv # nv) obj"
        using False differing_upd_other [OF k, of obj v] by (simp add: differing_def sup)
      have "fold diff_field (kv # nv) (obj, ch) = fold diff_field nv (obj(k := v), ch @ [k])"
        using step by simp
      also have "\<dots> = ((\<lambda>f. case map_of (supplied nv) f of Some w \<Rightarrow> w
                                | None \<Rightarrow> (obj(k := v)) f),
          (ch @ [k]) @ differing nv (obj(k := v)))"
        by (rule Cons.IH [OF d])
      finally show ?thesis
        by (simp only: f g)
    qed
  qed
qed

lemma new_vals_distinct: "distinct (map fst (new_vals now url data cat sub run))"
  by (simp add: new_vals_def)


lemma new_vals_category:
  "map_of (supplied (new_vals now url data cat sub run)) ''category'' =
     (if cat \<noteq> [] then Some (Str (take 255 cat)) else None)"
  by (simp add: new_vals_def supplied_def stamp_fields_def)

lemma new_vals_subcategory:
  "map_of (supplied (new_vals now url data cat sub run)) ''subcategory'' =
     (if sub \<noteq> [] then Some (Str (take 255 sub)) else None)"
  by (simp add: new_vals_def supplied_def stamp_fields_def)

lemma new_vals_not_meta:
  "f \<in> set [''last_checked_at'', ''last_scrape_run_id'', ''last_scrape_status'',
              ''last_scrape_message'', ''scraped_at''] \<Longrightarrow>
   map_of (supplied (new_vals now url data cat sub run)) f = None"
  unfolding list.set insert_iff empty_iff
  by (elim disjE FalseE) (simp_all add: new_vals_def supplied_def stamp_fields_def)

lemma backfill_twice:
  "backfill ''subcategory'' sub (backfill ''category'' cat (stored, [])) =
     ((\<lambda>f. if f \<in> set (backfilled cat sub stored)
           then (if f = ''category'' then Str (take 255 cat) else Str (take 255 sub))
           else stored f),
      backfilled cat sub stored)"
  by (auto simp: backfill_def backfilled_def fun_eq_iff)


lemma supplied_distinct: "distinct (map fst nv) \<Longrightarrow> distinct (map fst (supplied nv))"
  by (simp add: supplied_def distinct_map_filter)

lemma backfilled_cases:
  "f \<in> set (backfilled cat sub stored) \<Longrightarrow>
   (f = ''category'' \<and> cat \<noteq> []) \<or> (f = ''subcategory'' \<and> sub \<noteq> [])"
  by (auto simp: backfilled_def split: if_splits)

lemma apply_changes_eq:
  assumes d: "distinct (map fst nv)"
    and c: "map_of (supplied nv) ''category'' =
              (if cat \<noteq> [] then Some (Str (take 255 cat)) else None)"
    and s: "map_of (supplied nv) ''subcategory'' =
              (if sub \<noteq> [] then Some (Str (take 255 sub)) else None)"
  shows "apply_changes nv cat sub stored =
     ((\<lambda>f. case map_of (supplied nv) f of Some v \<Rightarrow> v | None \<Rightarrow> stored f),
      backfilled cat sub stored @
      filter (\<lambda>f. f \<notin> set (backfilled cat sub stored)) (differing nv stored))"
proof -
  define bl where "bl = backfilled cat sub stored"
  define ob where "ob = (\<lambda>f. if f \<in> set bl
           then (if f = ''category'' then Str (take 255 cat) else Str (take 255 sub))
           else stored f)"
  have ob_bl: "map_of (supplied nv) f = Some (ob f)" if "f \<in> set bl" for f
    using backfilled_cases [of f cat sub stored] that c s
    by (auto simp: ob_def bl_def)
  have fn: "(\<lambda>f. case map_of (supplied nv) f of Some v \<Rightarrow> v | None \<Rightarrow> ob f)
      = (\<lambda>f. case map_of (supplied nv) f of Some v \<Rightarrow> v | None \<Rightarrow> stored f)"
  proof
    fix f
    show "(case map_of (supplied nv) f of Some v \<Rightarrow> v | None \<Rightarrow> ob f)
        = (case map_of (supplied nv) f of Some v \<Rightarrow> v | None \<Rightarrow> stored f)"
    proof (cases "map_of (supplied nv) f")
      case None
      with ob_bl [of f] have "f \<notin> set bl" by auto
      with None show ?thesis by (simp add: ob_def)
    next
      case (Some v)
      then show ?thesis by simp
    qed
  qed
  have "filter (\<lambda>(f, w). ob f \<noteq> w) (supplied nv)
      = filter (\<lambda>(f, w). f \<notin> set bl \<and> stored f \<noteq> w) (supplied nv)"
  proof (rule filter_cong [OF refl])
    fix x assume x: "x \<in> set (supplied nv)"
    obtain f w where fw: "x = (f, w)" by (cases x)
    from x fw supplied_distinct [OF d] have m: "map_of (supplied nv) f = Some w"
      by simp
    show "(case x of (f, w) \<Rightarrow> ob f \<noteq> w) = (case x of (f, w) \<Rightarrow> f \<notin> set bl \<and> stored f \<noteq> w)"
    proof (cases "f \<in> set bl")
      case True
      with ob_bl [of f] m show ?thesis by (simp add: fw)
    next
      case False
      then show ?thesis by (simp add: fw ob_def)
    qed
  qed
  then have df: "differing nv ob = filter (\<lambda>f. f \<notin> set bl) (differing nv stored)"
    by (simp add: differing_def filter_map o_def case_prod_unfold conj_commute)
  have "apply_changes nv cat sub stored = fold diff_field nv (ob, bl)"
    by (simp add: apply_changes_def backfill_twice ob_def bl_def)
  also have "\<dots> = ((\<lambda>f. case map_of (supplied nv) f of Some v \<Rightarrow> v | None \<Rightarrow> ob f),
      bl @ differing nv ob)"
    by (rule fold_diff_field [OF d])
  finally show ?thesis
    by (simp only: fn df bl_def)
qed

lemma apply_changes_new_vals:
  "apply_changes (new_vals now url data cat sub run) cat sub stored =
     ((\<lambda>f. case map_of (supplied (new_vals now url data cat sub run)) f of
             Some v \<Rightarrow> v | None \<Rightarrow> stored f),
      backfilled cat sub stored @
      filter (\<lambda>f. f \<notin> set (backfilled cat sub stored))
        (differing (new_vals now url data cat sub run) stored))"
  by (rule apply_changes_eq [OF new_vals_distinct new_vals_category new_vals_subcategory])

lemma changed_Nil_iff:
  "bl @ filter (\<lambda>f. f \<notin> set bl) df = [] \<longleftrightarrow> df = [] \<and> bl = []"
  by (cases bl) auto


lemma fold_upd_map_of:
  "distinct (map fst nv) \<Longrightarrow>
   fold (\<lambda>(f, v) r. r(f := v)) nv r0 = (\<lambda>f. case map_of nv f of Some v \<Rightarrow> v | None \<Rightarrow> r0 f)"
proof (induction nv arbitrary: r0)
  case Nil
  then show ?case by simp
next
  case (Cons kv nv)
  obtain k v where kv: "kv = (k, v)" by (cases kv)
  from Cons.prems kv have k: "map_of nv k = None" and d: "distinct (map fst nv)"
    by (auto simp: map_of_eq_None_iff)
  have "fold (\<lambda>(f, v) r. r(f := v)) (kv # nv) r0 = fold (\<lambda>(f, v) r. r(f := v)) nv (r0(k := v))"
    by (simp add: kv)
  also have "\<dots> = (\<lambda>f. case map_of nv f of Some w \<Rightarrow> w | None \<Rightarrow> (r0(k := v)) f)"
    by (rule Cons.IH [OF d])
  also have "\<dots> = (\<lambda>f. case map_of (kv # nv) f of Some w \<Rightarrow> w | None \<Rightarrow> r0 f)"
    using k by (auto simp: fun_eq_iff kv split: option.splits)
  finally show ?case .
qed

lemma insert_vacancy_holds:
  assumes "(f, v) \<in> set (new_vals now url data cat sub run)"
  shows "insert_vacancy now ref (new_vals now url data cat sub run) f = v"
proof -
  from assms new_vals_distinct [of now url data cat sub run]
  have "map_of (new_vals now url data cat sub run) f = Some v"
    by simp
  then show ?thesis
    by (simp add: insert_vacancy_def fold_upd_map_of [OF new_vals_distinct])
qed

lemma in_differing_iff:
  "f \<in> set (differing nv old) \<longleftrightarrow> (\<exists>v. (f, v) \<in> set (supplied nv) \<and> old f \<noteq> v)"
  by (force simp: differing_def)

lemma supplied_new_vals_not_meta:
  assumes "(f, v) \<in> set (supplied (new_vals now url data cat sub run))"
  shows "f \<notin> set [''last_checked_at'', ''last_scrape_run_id'', ''last_scrape_status'',
              ''last_scrape_message'', ''scraped_at'']"
proof
  from assms supplied_distinct [OF new_vals_distinct, of now url data cat sub run]
  have m: "map_of (supplied (new_vals now url data cat sub run)) f = Some v"
    by simp
  assume "f \<in> set [''last_checked_at'', ''last_scrape_run_id'', ''last_scrape_status'',
              ''last_scrape_message'', ''scraped_at'']"
  then have "map_of (supplied (new_vals now url data cat sub run)) f = None"
    by (rule new_vals_not_meta)
  with m show False by simp
qed

lemma new_vals_not_status:
  assumes "(f, v) \<in> set (new_vals now url data cat sub run)"
  shows "f \<notin> set [''last_scrape_status'', ''last_scrape_message'', ''scraped_at'']"
proof
  from assms new_vals_distinct [of now url data cat sub run]
  have m: "map_of (new_vals now url data cat sub run) f = Some v"
    by simp
  assume "f \<in> set [''last_scrape_status'', ''last_scrape_message'', ''scraped_at'']"
  then have "map_of (new_vals now url data cat sub run) f = None"
    unfolding list.set insert_iff empty_iff
    by (elim disjE FalseE) (simp_all add: new_vals_def)
  with m show False by simp
qed

lemma upsert_smart_created:
  assumes "db ref = None"
  shows "upsert_smart now ref url data cat sub run db =
     ((''created'', []),
      db(ref \<mapsto> (insert_vacancy now ref (new_vals now url data cat sub run))
           (''last_scrape_status'' := Str ''created'', ''last_scrape_message'' := Str [])))"
proof -
  have "django_save now created
          (created(''last_scrape_status'' := Str ''created'', ''last_scrape_message'' := Str []))
          [''last_scrape_status'', ''last_scrape_message'']
        = created(''last_scrape_status'' := Str ''created'', ''last_scrape_message'' := Str [])"
    for created
    by (simp add: django_save_def fun_eq_iff)
  with assms show ?thesis
    by (simp add: upsert_smart_def Let_def)
qed

lemma upsert_smart_existing:
  assumes "db ref = Some old"
  shows "upsert_smart now ref url data cat sub run db =
     (let nv = new_vals now url data cat sub run;
          obj2 = (\<lambda>f. case map_of (supplied nv) f of Some v \<Rightarrow> v | None \<Rightarrow> old f)
                   (''last_checked_at'' := Stamp now, ''last_scrape_run_id'' := Uuid run);
          changed = backfilled cat sub old @
                    filter (\<lambda>f. f \<notin> set (backfilled cat sub old)) (differing nv old)
      in if changed = [] then
           ((''skipped'', []),
            db(ref \<mapsto> django_save now old
                 (obj2(''last_scrape_status'' := Str ''skipped'', ''last_scrape_message'' := Str []))
                 log_fields))
         else
           ((''updated'', ''changed_fields='' @ join '','' changed),
            db(ref \<mapsto> django_save now old
                 (obj2(''last_scrape_status'' := Str ''updated'',
                       ''last_scrape_message'' := Str (''changed_fields='' @ join '','' changed)))
                 (changed @ ''scraped_at'' # log_fields))))"
  using assms
  by (auto simp: upsert_smart_def Let_def apply_changes_new_vals log_fields_def)


lemma django_save_apply:
  "django_save now stored obj fs f =
     (if f \<in> set fs then (if f = ''scraped_at'' then Stamp now else obj f) else stored f)"
  by (simp add: django_save_def)

lemma supplied_value:
  assumes "(f, v) \<in> set (supplied (new_vals now url data cat sub run))"
  shows "(case map_of (supplied (new_vals now url data cat sub run)) f of
            Some w \<Rightarrow> w | None \<Rightarrow> old f) = v"
  using assms supplied_distinct [OF new_vals_distinct, of now url data cat sub run] by simp

lemma backfilled_supplied:
  assumes "f \<in> set (backfilled cat sub old)"
  shows "\<exists>v. (f, v) \<in> set (supplied (new_vals now url data cat sub run))"
proof -
  from backfilled_cases [OF assms]
  have "map_of (supplied (new_vals now url data cat sub run)) f \<noteq> None"
    using new_vals_category [of now url data cat sub run]
      new_vals_subcategory [of now url data cat sub run]
    by (elim disjE conjE) simp_all
  then show ?thesis
    by (auto dest: map_of_SomeD)
qed

lemma upsert_smart_created_row:
  assumes none: "db ref = None" and nv: "nv = new_vals now url data cat sub run"
  shows "\<exists>r. upsert_smart now ref url data cat sub run db = ((''created'', []), db(ref \<mapsto> r)) \<and>
             (\<forall>(f, v) \<in> set nv. r f = v) \<and>
             r ''last_scrape_status'' = Str ''created'' \<and>
             r ''last_scrape_message'' = Str []"
proof -
  define r where "r = (insert_vacancy now ref nv)
     (''last_scrape_status'' := Str ''created'', ''last_scrape_message'' := Str [])"
  have out: "upsert_smart now ref url data cat sub run db = ((''created'', []), db(ref \<mapsto> r))"
    unfolding r_def nv by (rule upsert_smart_created) (rule none)
  have holds: "r f = v" if "(f, v) \<in> set nv" for f v
  proof -
    from that have "f \<notin> set [''last_scrape_status'', ''last_scrape_message'', ''scraped_at'']"
      unfolding nv by (rule new_vals_not_status)
    then have "r f = insert_vacancy now ref nv f"
      by (simp add: r_def)
    with that show ?thesis
      by (simp add: nv insert_vacancy_holds)
  qed
  have "r ''last_scrape_status'' = Str ''created''" "r ''last_scrape_message'' = Str []"
    by (simp_all add: r_def)
  with holds out show ?thesis
    by auto
qed

lemma upsert_smart_existing_row:
  assumes some: "db ref = Some old" and nv: "nv = new_vals now url data cat sub run"
  shows "\<exists>r changed.
     upsert_smart now ref url data cat sub run db =
       ((if changed = [] then ''skipped'' else ''updated'',
         if changed = [] then [] else ''changed_fields='' @ join '','' changed),
        db(ref \<mapsto> r)) \<and>
     (changed = [] \<longleftrightarrow> differing nv old = [] \<and> backfilled cat sub old = []) \<and>
     (\<forall>(f, v) \<in> set (supplied nv). r f = v) \<and>
     (\<forall>f. f \<notin> set (differing nv old) \<and> f \<notin> set log_fields \<and> f \<noteq> ''scraped_at''
          \<longrightarrow> r f = old f) \<and>
     r ''last_checked_at'' = Stamp now \<and> r ''last_scrape_run_id'' = Uuid run \<and>
     r ''last_scrape_status'' = Str (if changed = [] then ''skipped'' else ''updated'') \<and>
     r ''last_scrape_message'' =
       Str (if changed = [] then [] else ''changed_fields='' @ join '','' changed) \<and>
     r ''scraped_at'' = (if changed = [] then old ''scraped_at'' else Stamp now)"
proof -
  define bl where "bl = backfilled cat sub old"
  define df where "df = differing nv old"
  define changed where "changed = bl @ filter (\<lambda>f. f \<notin> set bl) df"
  define obj2 where "obj2 = (\<lambda>f. case map_of (supplied nv) f of Some v \<Rightarrow> v | None \<Rightarrow> old f)
       (''last_checked_at'' := Stamp now, ''last_scrape_run_id'' := Uuid run)"
  define status where "status = (if changed = [] then ''skipped'' else ''updated'')"
  define msg where "msg = (if changed = [] then [] else ''changed_fields='' @ join '','' changed)"
  define r where "r = django_save now old
        (obj2(''last_scrape_status'' := Str status, ''last_scrape_message'' := Str msg))
        (if changed = [] then log_fields else changed @ ''scraped_at'' # log_fields)"
  note ex = upsert_smart_existing [where db = db and ref = ref and now = now and url = url
      and data = data and cat = cat and sub = sub and run = run and old = old, OF some,
      unfolded Let_def, folded nv, folded bl_def df_def, folded changed_def, folded obj2_def]
  have out: "upsert_smart now ref url data cat sub run db = ((status, msg), db(ref \<mapsto> r))"
    using ex by (simp add: r_def status_def msg_def)
  have ch_nil: "changed = [] \<longleftrightarrow> df = [] \<and> bl = []"
    unfolding changed_def by (rule changed_Nil_iff)
  have ch_set: "set changed = set bl \<union> set df"
    unfolding changed_def by auto
  have notmeta: "f \<notin> set log_fields \<and> f \<noteq> ''scraped_at''" if "(f, v) \<in> set (supplied nv)" for f v
    using supplied_new_vals_not_meta [OF that [unfolded nv]] by (simp add: log_fields_def)
  have obj2_sup: "obj2 f = v" if "(f, v) \<in> set (supplied nv)" for f v
  proof -
    from notmeta [OF that] have "f \<noteq> ''last_checked_at''" "f \<noteq> ''last_scrape_run_id''"
      by (simp_all add: log_fields_def)
    then show ?thesis
      using supplied_value [OF that [unfolded nv], of old] by (simp add: obj2_def nv)
  qed
  have meta: "r ''last_checked_at'' = Stamp now" "r ''last_scrape_run_id'' = Uuid run"
    "r ''last_scrape_status'' = Str status" "r ''last_scrape_message'' = Str msg"
    "r ''scraped_at'' = (if changed = [] then old ''scraped_at'' else Stamp now)"
    by (simp_all add: r_def django_save_apply log_fields_def obj2_def)
  have r_plain: "r f = (if f \<in> set changed then obj2 f else old f)"
    if "f \<notin> set log_fields" "f \<noteq> ''scraped_at''" for f
    using that by (simp add: r_def django_save_apply log_fields_def)
  have stored: "r f = v" if fv: "(f, v) \<in> set (supplied nv)" for f v
  proof (cases "f \<in> set changed")
    case True
    with notmeta [OF fv] r_plain [of f] obj2_sup [OF fv] show ?thesis by simp
  next
    case False
    with ch_set have "f \<notin> set (differing nv old)" by (simp add: df_def)
    with fv have "old f = v" by (auto simp: in_differing_iff)
    with False notmeta [OF fv] r_plain [of f] show ?thesis by simp
  qed
  have frame: "r f = old f"
    if "f \<notin> set (differing nv old)" "f \<notin> set log_fields" "f \<noteq> ''scraped_at''" for f
  proof (cases "f \<in> set changed")
    case True
    with ch_set that(1) have "f \<in> set (backfilled cat sub old)"
      by (simp add: df_def bl_def)
    then obtain v where fv: "(f, v) \<in> set (supplied nv)"
      using backfilled_supplied [of f cat sub old now url data run] by (auto simp: nv)
    with that(1) have "old f = v" by (auto simp: in_differing_iff)
    with stored [OF fv] show ?thesis by simp
  next
    case False
    with that r_plain [of f] show ?thesis by simp
  qed
  from out ch_nil stored frame meta show ?thesis
    unfolding status_def msg_def df_def bl_def by blast
qed




text \<open>
  C5 (code defect). The apprenticeship upsert overwrites a non-empty stored category:
  the loop over the new values does not skip category and subcategory, unlike the job
  vertical.
\<close>

theorem upsert_smart_overwrites_category:
  "the (chef_db ''VAC1'') ''category'' = Str ''Health'' \<and>
   fst (upsert_smart 2 ''VAC1'' [] chef_data ''Care'' [] 8 chef_db)
     = (''updated'', ''changed_fields=category'') \<and>
   the (snd (upsert_smart 2 ''VAC1'' [] chef_data ''Care'' [] 8 chef_db) ''VAC1'') ''category''
     = Str ''Care''"
  by code_simp

lemma supplied_new_vals_indep:
  "supplied (new_vals now2 url data cat sub run2) = supplied (new_vals now1 url data cat sub run1)"
  by (simp add: new_vals_def supplied_def stamp_fields_def)

lemma upsert_smart_stores_supplied:
  assumes nv: "nv = new_vals now url data cat sub run"
  shows "\<exists>r. snd (upsert_smart now ref url data cat sub run db) ref = Some r \<and>
             (\<forall>(f, v) \<in> set (supplied nv). r f = v)"
proof (cases "db ref")
  case None
  from upsert_smart_created_row [where db = db and ref = ref, OF None nv] obtain r where
    r: "upsert_smart now ref url data cat sub run db = ((''created'', []), db(ref \<mapsto> r))"
      "\<forall>(f, v) \<in> set nv. r f = v"
    by blast
  from r(2) supplied_subset [of nv] have "\<forall>(f, v) \<in> set (supplied nv). r f = v"
    by fastforce
  with r(1) show ?thesis by simp
next
  case (Some old)
  from upsert_smart_existing_row [where db = db and ref = ref, OF Some nv] obtain r changed where
    r: "upsert_smart now ref url data cat sub run db =
         ((if changed = [] then ''skipped'' else ''updated'',
           if changed = [] then [] else ''changed_fields='' @ join '','' changed),
          db(ref \<mapsto> r))"
      "\<forall>(f, v) \<in> set (supplied nv). r f = v"
    by blast
  then show ?thesis by simp
qed

lemma plan_name_not_backfilled:
  assumes "plan_name cat" "plan_name sub"
    and "\<forall>(f, v) \<in> set (supplied (new_vals now url data cat sub run)). r f = v"
  shows "backfilled cat sub r = []"
proof -
  have c: "strip (text_of (r ''category'')) \<noteq> []" if "cat \<noteq> []"
  proof -
    from that new_vals_category [of now url data cat sub run]
    have "(''category'', Str (take 255 cat)) \<in> set (supplied (new_vals now url data cat sub run))"
      by (simp add: map_of_SomeD)
    with assms(3) have "r ''category'' = Str (take 255 cat)" by fastforce
    with assms(1) that show ?thesis by (simp add: plan_name_def)
  qed
  have s: "strip (text_of (r ''subcategory'')) \<noteq> []" if "sub \<noteq> []"
  proof -
    from that new_vals_subcategory [of now url data cat sub run]
    have "(''subcategory'', Str (take 255 sub)) \<in> set (supplied (new_vals now url data cat sub run))"
      by (simp add: map_of_SomeD)
    with assms(3) have "r ''subcategory'' = Str (take 255 sub)" by fastforce
    with assms(2) that show ?thesis by (simp add: plan_name_def)
  qed
  from c s show ?thesis
    unfolding backfilled_def by (cases "cat = []"; cases "sub = []") simp_all
qed

lemma upsert_smart_twice:
  assumes cat: "plan_name cat" and sub: "plan_name sub"
    and first: "db1 = snd (upsert_smart now1 ref url data cat sub run1 db)"
  shows "\<exists>r1 r2.
     db1 ref = Some r1 \<and>
     snd (apply_changes (new_vals now2 url data cat sub run2) cat sub r1) = [] \<and>
     upsert_smart now2 ref url data cat sub run2 db1 = ((''skipped'', []), db1(ref \<mapsto> r2)) \<and>
     (\<forall>f. f \<notin> set log_fields \<longrightarrow> r2 f = r1 f) \<and>
     r2 ''last_checked_at'' = Stamp now2 \<and> r2 ''last_scrape_run_id'' = Uuid run2"
proof -
  let ?nv1 = "new_vals now1 url data cat sub run1"
  let ?nv2 = "new_vals now2 url data cat sub run2"
  from upsert_smart_stores_supplied [OF refl, of now1 ref url data cat sub run1 db] first
  obtain r1 where r1: "db1 ref = Some r1" "\<forall>(f, v) \<in> set (supplied ?nv1). r1 f = v"
    by blast
  have sup: "supplied ?nv2 = supplied ?nv1"
    by (rule supplied_new_vals_indep)
  have nodiff: "differing ?nv2 r1 = []"
  proof -
    have "f \<notin> set (differing ?nv2 r1)" for f
      using r1(2) by (auto simp: in_differing_iff sup)
    then show ?thesis by (cases "differing ?nv2 r1") auto
  qed
  have noback: "backfilled cat sub r1 = []"
    using cat sub r1(2) by (rule plan_name_not_backfilled)
  have ch: "snd (apply_changes ?nv2 cat sub r1) = []"
    by (simp add: apply_changes_new_vals nodiff noback)
  from upsert_smart_existing_row [where db = db1 and ref = ref, OF r1(1) refl,
      of now2 url data cat sub run2]
  obtain r2 changed where
    r2: "upsert_smart now2 ref url data cat sub run2 db1 =
         ((if changed = [] then ''skipped'' else ''updated'',
           if changed = [] then [] else ''changed_fields='' @ join '','' changed),
          db1(ref \<mapsto> r2))"
      "changed = [] \<longleftrightarrow> differing ?nv2 r1 = [] \<and> backfilled cat sub r1 = []"
      "\<forall>f. f \<notin> set (differing ?nv2 r1) \<and> f \<notin> set log_fields \<and> f \<noteq> ''scraped_at''
          \<longrightarrow> r2 f = r1 f"
      "r2 ''last_checked_at'' = Stamp now2" "r2 ''last_scrape_run_id'' = Uuid run2"
      "r2 ''scraped_at'' = (if changed = [] then r1 ''scraped_at'' else Stamp now2)"
    by blast
  from r2(2) nodiff noback have c: "changed = []" by simp
  have frame: "\<forall>f. f \<notin> set log_fields \<longrightarrow> r2 f = r1 f"
  proof (intro allI impI)
    fix f assume f: "f \<notin> set log_fields"
    show "r2 f = r1 f"
    proof (cases "f = ''scraped_at''")
      case True
      with r2(6) c show ?thesis by simp
    next
      case False
      with r2(3) f nodiff show ?thesis by simp
    qed
  qed
  from r1(1) ch r2(1) c frame r2(4,5) show ?thesis
    by auto
qed

section \<open>Properties of pagination\<close>

lemma chain_ends_iff:
  "chain_ends soup nx start n \<longleftrightarrow>
     chain soup nx start n = None \<or> chain soup nx start n = Some [] \<or>
     (\<exists>m<n. chain soup nx start m = chain soup nx start n)"
  by (auto simp: chain_ends_def list_ex_iff)

lemma chain_Suc_fetched:
  "chain soup nx start k = Some u \<Longrightarrow> soup u = Inr s \<Longrightarrow> chain soup nx start (Suc k) = nx s u"
  by simp

lemma chain_prefix_distinct:
  assumes min: "\<forall>j<k. \<not> chain_ends soup nx start j"
    and len: "length acc = k"
    and pre: "\<forall>i<k. chain soup nx start i = Some (fst (acc ! i))"
  shows "distinct (map fst acc)"
proof -
  have inj: "fst (acc ! i) \<noteq> fst (acc ! j)" if "i < j" "j < k" for i j
  proof
    assume eq: "fst (acc ! i) = fst (acc ! j)"
    from that have "i < k" by simp
    with pre have "chain soup nx start i = Some (fst (acc ! i))" by simp
    moreover from pre that have "chain soup nx start j = Some (fst (acc ! j))" by simp
    ultimately have "chain soup nx start i = chain soup nx start j" using eq by simp
    with that have "chain_ends soup nx start j"
      unfolding chain_ends_iff by blast
    with min that show False by simp
  qed
  have "map fst acc ! i \<noteq> map fst acc ! j"
    if "i < length (map fst acc)" "j < length (map fst acc)" "i \<noteq> j" for i j
  proof (cases "i < j")
    case True
    with that len inj [of i j] show ?thesis by simp
  next
    case False
    with that have "j < i" by simp
    with that len inj [of j i] show ?thesis by simp
  qed
  then show ?thesis
    unfolding distinct_conv_nth by blast
qed

lemma iter_pages_loop_from:
  assumes fin: "chain_ends soup nx start n"
    and min: "\<forall>j<n. \<not> chain_ends soup nx start j"
  shows "k \<le> n \<Longrightarrow> length acc = k \<Longrightarrow>
    (\<forall>i<k. chain soup nx start i = Some (fst (acc ! i)) \<and> soup (fst (acc ! i)) = Inr (snd (acc ! i))) \<Longrightarrow>
    \<exists>res. iter_pages_loop soup nx (set (map fst acc)) (chain soup nx start k) acc = Some res \<and>
          distinct (requested res) \<and> length (fst res) \<le> n \<and>
          (\<forall>i<length (fst res). chain soup nx start i = Some (fst (fst res ! i)) \<and>
               soup (fst (fst res ! i)) = Inr (snd (fst res ! i))) \<and>
          (snd res = None \<longrightarrow> length (fst res) = n)"
proof (induction "n - k" arbitrary: k acc)
  case 0
  then have kn: "k = n" by simp
  have dist: "distinct (map fst acc)"
    using min "0.prems"(2,3) kn by (intro chain_prefix_distinct [where k = k]) auto
  have stop: "chain soup nx start k = None \<or> chain soup nx start k = Some [] \<or>
      (\<exists>u. chain soup nx start k = Some u \<and> u \<in> set (map fst acc))"
  proof -
    from fin kn consider "chain soup nx start k = None" | "chain soup nx start k = Some []"
      | m where "m < k" "chain soup nx start m = chain soup nx start k"
      by (auto simp: chain_ends_iff)
    then show ?thesis
    proof cases
      case 3
      with "0.prems"(2,3) have "chain soup nx start k = Some (fst (acc ! m))" "fst (acc ! m) \<in> set (map fst acc)"
        by auto
      then show ?thesis by blast
    qed auto
  qed
  then have "iter_pages_loop soup nx (set (map fst acc)) (chain soup nx start k) acc = Some (acc, None)"
    by (subst iter_pages_loop.simps) (force split: option.splits)
  with dist "0.prems" kn show ?case
    by (simp add: requested_def)
next
  case (Suc d)
  then have kn: "k < n" by simp
  with min have ne: "\<not> chain_ends soup nx start k" by simp
  then obtain u where u: "chain soup nx start k = Some u" "u \<noteq> []"
    by (auto simp: chain_ends_iff)
  have dist: "distinct (map fst acc)"
    using min Suc.prems(2,3) kn by (intro chain_prefix_distinct [where k = k]) auto
  have fresh: "u \<notin> set (map fst acc)"
  proof
    assume "u \<in> set (map fst acc)"
    then obtain m where m: "m < k" "fst (acc ! m) = u"
      using Suc.prems(2) by (auto simp: in_set_conv_nth)
    with Suc.prems(3) u have "chain soup nx start m = chain soup nx start k" by simp
    with m ne show False by (auto simp: chain_ends_iff)
  qed
  show ?case
  proof (cases "soup u")
    case (Inl e)
    with u fresh have "iter_pages_loop soup nx (set (map fst acc)) (chain soup nx start k) acc
        = Some (acc, Some (u, e))"
      by (subst iter_pages_loop.simps) simp
    with dist fresh Suc.prems kn show ?thesis
      by (simp add: requested_def)
  next
    case (Inr s)
    let ?acc = "acc @ [(u, s)]"
    have a1: "d = n - Suc k" using Suc.hyps(2) by simp
    have a2: "Suc k \<le> n" using kn by simp
    have a3: "length ?acc = Suc k" using Suc.prems(2) by simp
    have a4: "\<forall>i<Suc k. chain soup nx start i = Some (fst (?acc ! i)) \<and>
        soup (fst (?acc ! i)) = Inr (snd (?acc ! i))"
      using Suc.prems(2,3) u Inr by (auto simp: nth_append less_Suc_eq)
    from Suc.hyps(1) [OF a1 a2 a3 a4] obtain res where
      res: "iter_pages_loop soup nx (set (map fst ?acc)) (chain soup nx start (Suc k)) ?acc = Some res"
        "distinct (requested res)" "length (fst res) \<le> n"
        "\<forall>i<length (fst res). chain soup nx start i = Some (fst (fst res ! i)) \<and>
               soup (fst (fst res ! i)) = Inr (snd (fst res ! i))"
        "snd res = None \<longrightarrow> length (fst res) = n"
      by (elim exE conjE)
    have "chain soup nx start (Suc k) = nx s u"
      using u Inr by simp
    with res(1) have "iter_pages_loop soup nx (insert u (set (map fst acc))) (nx s u) ?acc = Some res"
      by simp
    with u fresh Inr have "iter_pages_loop soup nx (set (map fst acc)) (chain soup nx start k) acc
        = Some res"
      by (subst iter_pages_loop.simps) simp
    with res(2-5) show ?thesis by (intro exI [where x = res]) simp
  qed
qed


lemma iter_pages_fixture:
  "iter_pages fixture_soup fixture_next ''/list?page=1'' =
     Some ([(''/list?page=1'', Some ''/list?page=2''),
            (''/list?page=2'', Some ''/list?page=3''),
            (''/list?page=3'', None)], None)"
  by (simp add: iter_pages_def iter_pages_loop.simps fixture_soup_def fixture_next_def)

text \<open>
  C4. Page iteration terminates whenever the chain of next-page links ends (no next
  link, an empty URL, a failed fetch) or revisits a URL: it returns, every URL is requested
  at most once, the pages yielded are the chain's pages in order up to the first point
  where the chain ends, and it stops only there unless a fetch fails. On the three-page
  fixture whose last page has no next link it yields exactly the three pages.
\<close>

theorem iter_pages_terminates:
  assumes "chain_ends soup next_url start_url n"
  shows "(\<exists>res. iter_pages soup next_url start_url = Some res \<and>
            distinct (requested res) \<and> length (fst res) \<le> n \<and>
            (\<forall>i<length (fst res).
                chain soup next_url start_url i = Some (fst (fst res ! i)) \<and>
                soup (fst (fst res ! i)) = Inr (snd (fst res ! i)) \<and>
                \<not> chain_ends soup next_url start_url i) \<and>
            (snd res = None \<longrightarrow> chain_ends soup next_url start_url (length (fst res)))) \<and>
         iter_pages fixture_soup fixture_next ''/list?page=1'' =
           Some ([(''/list?page=1'', Some ''/list?page=2''),
                  (''/list?page=2'', Some ''/list?page=3''),
                  (''/list?page=3'', None)], None)"
proof -
  define m where "m = (LEAST j. chain_ends soup next_url start_url j)"
  have fin: "chain_ends soup next_url start_url m"
    unfolding m_def using assms by (rule LeastI)
  have min: "\<forall>j<m. \<not> chain_ends soup next_url start_url j"
    unfolding m_def using not_less_Least by blast
  have mn: "m \<le> n"
    unfolding m_def using assms by (rule Least_le)
  from iter_pages_loop_from [OF fin min, of 0 "[]"]
  obtain res where
    res: "iter_pages_loop soup next_url {} (Some start_url) [] = Some res"
      "distinct (requested res)" "length (fst res) \<le> m"
      "\<forall>i<length (fst res). chain soup next_url start_url i = Some (fst (fst res ! i)) \<and>
             soup (fst (fst res ! i)) = Inr (snd (fst res ! i))"
      "snd res = None \<longrightarrow> length (fst res) = m"
    by auto
  have "\<forall>i<length (fst res). \<not> chain_ends soup next_url start_url i"
    using res(3) min by simp
  moreover have "snd res = None \<longrightarrow> chain_ends soup next_url start_url (length (fst res))"
    using res(5) fin by simp
  moreover have "length (fst res) \<le> n"
    using res(3) mn by simp
  ultimately have "\<exists>res. iter_pages soup next_url start_url = Some res \<and>
            distinct (requested res) \<and> length (fst res) \<le> n \<and>
            (\<forall>i<length (fst res).
                chain soup next_url start_url i = Some (fst (fst res ! i)) \<and>
                soup (fst (fst res ! i)) = Inr (snd (fst res ! i)) \<and>
                \<not> chain_ends soup next_url start_url i) \<and>
            (snd res = None \<longrightarrow> chain_ends soup next_url start_url (length (fst res)))"
    using res(1,2,4) by (intro exI [where x = res]) (simp add: iter_pages_def)
  then show ?thesis
    using iter_pages_fixture by (rule conjI)
qed

theorem iter_pages_terminates_witness:
  "chain_ends fixture_soup fixture_next ''/list?page=1'' 3 \<and>
   (\<exists>res. iter_pages fixture_soup fixture_next ''/list?page=1'' = Some res \<and>
         distinct (requested res) \<and> length (fst res) \<le> 3)"
proof -
  have e: "chain_ends fixture_soup fixture_next ''/list?page=1'' 3"
    by code_simp
  from iter_pages_terminates [OF e, THEN conjunct1]
  have "\<exists>res. iter_pages fixture_soup fixture_next ''/list?page=1'' = Some res \<and>
         distinct (requested res) \<and> length (fst res) \<le> 3"
    by (elim exE conjE) (intro exI conjI)
  with e show ?thesis by (rule conjI)
qed

section \<open>Properties of the card boundary search\<close>

lemma dedup_by_subset: "set (dedup_by f seen xs) \<subseteq> set xs"
  by (induction xs arbitrary: seen) auto

lemma in_map_filter: "x \<in> set (List.map_filter f xs) \<longleftrightarrow> (\<exists>a \<in> set xs. f a = Some x)"
  by (induction xs) (auto simp: map_filter_simps split: option.splits)

lemma is_ancestor_parent:
  assumes "p \<noteq> []" "is_ancestor c (butlast p)"
  shows "is_ancestor c p \<and> climbed p c = Suc (climbed (butlast p) c)"
proof -
  from assms(2) have t: "take (length c) (butlast p) = c"
    by (simp add: is_ancestor_def)
  then have "length (take (length c) (butlast p)) = length c" by simp
  then have le: "length c \<le> length (butlast p)" by simp
  from assms(1) have p: "p = butlast p @ [last p]" by simp
  have "take (length c) p = take (length c) (butlast p @ [last p])"
    using p by simp
  also have "\<dots> = take (length c) (butlast p)"
    using le by simp
  finally have "take (length c) p = c" using t by simp
  moreover have "climbed p c = Suc (climbed (butlast p) c)"
  proof -
    from assms(1) have "0 < length p" by simp
    moreover have "length (butlast p) = length p - 1" by simp
    ultimately show ?thesis using le unfolding climbed_def by arith
  qed
  ultimately show ?thesis by (simp add: is_ancestor_def)
qed

lemma job_card_loop_None [simp]: "job_card_loop k root None job_id = None"
  by (cases k) simp_all

lemma app_card_loop_None [simp]: "app_card_loop k root None ref = None"
  by (cases k) simp_all

lemma job_card_loop_sound:
  "job_card_loop k root (Some p) job_id = Some c \<Longrightarrow>
   \<exists>t. subtree root c = Some t \<and> job_ids_in_node t = {job_id} \<and>
       is_ancestor c p \<and> climbed p c < k"
proof (induction k arbitrary: p)
  case 0
  then show ?case by simp
next
  case (Suc k)
  from Suc.prems obtain n as cs where t: "subtree root p = Some (Tag n as cs)"
    by (auto split: option.splits dom.splits)
  show ?case
  proof (cases "job_ids_in_node (Tag n as cs) = {job_id}")
    case True
    with Suc.prems t have "c = p" by (simp add: Let_def)
    with t True show ?thesis
      by (simp add: is_ancestor_def climbed_def)
  next
    case False
    with Suc.prems t have rec: "job_card_loop k root (parent_path p) job_id = Some c"
      by (simp add: Let_def)
    then have ne: "p \<noteq> []"
      by (auto simp: parent_path_def split: if_splits)
    with rec have "job_card_loop k root (Some (butlast p)) job_id = Some c"
      by (simp add: parent_path_def)
    from Suc.IH [OF this] obtain u where
      u: "subtree root c = Some u" "job_ids_in_node u = {job_id}"
        "is_ancestor c (butlast p)" "climbed (butlast p) c < k"
      by blast
    with is_ancestor_parent [OF ne u(3)] show ?thesis by simp
  qed
qed

lemma job_card_loop_complete:
  "\<forall>c. is_ancestor c p \<and> climbed p c < k \<longrightarrow>
       (\<forall>t. subtree root c = Some t \<longrightarrow> job_ids_in_node t \<noteq> {job_id}) \<Longrightarrow>
   job_card_loop k root (Some p) job_id = None"
proof (induction k arbitrary: p)
  case 0
  then show ?case by simp
next
  case (Suc k)
  have "is_ancestor p p \<and> climbed p p < Suc k"
    by (simp add: is_ancestor_def climbed_def)
  with Suc.prems have here: "\<forall>t. subtree root p = Some t \<longrightarrow> job_ids_in_node t \<noteq> {job_id}"
    by blast
  show ?case
  proof (cases "p = []")
    case True
    with here show ?thesis
      by (auto simp: parent_path_def Let_def split: option.splits dom.splits)
  next
    case False
    have "\<forall>c. is_ancestor c (butlast p) \<and> climbed (butlast p) c < k \<longrightarrow>
       (\<forall>t. subtree root c = Some t \<longrightarrow> job_ids_in_node t \<noteq> {job_id})"
    proof (rule allI, rule impI)
      fix c assume c: "is_ancestor c (butlast p) \<and> climbed (butlast p) c < k"
      with is_ancestor_parent [OF False, of c]
      have "is_ancestor c p \<and> climbed p c < Suc k" by simp
      with Suc.prems show "\<forall>t. subtree root c = Some t \<longrightarrow> job_ids_in_node t \<noteq> {job_id}"
        by blast
    qed
    from Suc.IH [OF this] have "job_card_loop k root (Some (butlast p)) job_id = None" .
    with here False show ?thesis
      by (auto simp: parent_path_def Let_def split: option.splits dom.splits)
  qed
qed


lemma app_card_loop_sound:
  "app_card_loop k root (Some p) ref = Some c \<Longrightarrow>
   \<exists>t. subtree root c = Some t \<and> vac_refs_in_node t = {ref} \<and> card_confirmed t \<and>
       is_ancestor c p \<and> climbed p c < k"
proof (induction k arbitrary: p)
  case 0
  then show ?case by simp
next
  case (Suc k)
  from Suc.prems obtain n as cs where t: "subtree root p = Some (Tag n as cs)"
    by (auto split: option.splits dom.splits)
  show ?case
  proof (cases "vac_refs_in_node (Tag n as cs) = {ref} \<and> card_confirmed (Tag n as cs)")
    case True
    with Suc.prems t have "c = p" by (simp add: Let_def)
    with t True show ?thesis
      by (simp add: is_ancestor_def climbed_def)
  next
    case False
    with Suc.prems t have rec: "app_card_loop k root (parent_path p) ref = Some c"
      by (auto simp: Let_def split: if_splits)
    then have ne: "p \<noteq> []"
      by (auto simp: parent_path_def split: if_splits)
    with rec have "app_card_loop k root (Some (butlast p)) ref = Some c"
      by (simp add: parent_path_def)
    from Suc.IH [OF this] obtain u where
      u: "subtree root c = Some u" "vac_refs_in_node u = {ref}" "card_confirmed u"
        "is_ancestor c (butlast p)" "climbed (butlast p) c < k"
      by blast
    with is_ancestor_parent [OF ne u(4)] show ?thesis by simp
  qed
qed

lemma app_card_loop_complete:
  "\<forall>c. is_ancestor c p \<and> climbed p c < k \<longrightarrow>
       (\<forall>t. subtree root c = Some t \<longrightarrow> \<not> (vac_refs_in_node t = {ref} \<and> card_confirmed t)) \<Longrightarrow>
   app_card_loop k root (Some p) ref = None"
proof (induction k arbitrary: p)
  case 0
  then show ?case by simp
next
  case (Suc k)
  have "is_ancestor p p \<and> climbed p p < Suc k"
    by (simp add: is_ancestor_def climbed_def)
  with Suc.prems
  have here: "\<forall>t. subtree root p = Some t \<longrightarrow> \<not> (vac_refs_in_node t = {ref} \<and> card_confirmed t)"
    by blast
  show ?case
  proof (cases "p = []")
    case True
    with here show ?thesis
      by (auto simp: parent_path_def Let_def split: option.splits dom.splits)
  next
    case False
    have "\<forall>c. is_ancestor c (butlast p) \<and> climbed (butlast p) c < k \<longrightarrow>
       (\<forall>t. subtree root c = Some t \<longrightarrow> \<not> (vac_refs_in_node t = {ref} \<and> card_confirmed t))"
    proof (rule allI, rule impI)
      fix c assume c: "is_ancestor c (butlast p) \<and> climbed (butlast p) c < k"
      with is_ancestor_parent [OF False, of c]
      have "is_ancestor c p \<and> climbed p c < Suc k" by simp
      with Suc.prems
      show "\<forall>t. subtree root c = Some t \<longrightarrow> \<not> (vac_refs_in_node t = {ref} \<and> card_confirmed t)"
        by blast
    qed
    from Suc.IH [OF this] have "app_card_loop k root (Some (butlast p)) ref = None" .
    with here False show ?thesis
      by (auto simp: parent_path_def Let_def split: option.splits dom.splits)
  qed
qed

lemma job_stub_Some:
  assumes "job_stub abs_url populate root a = Some x"
  shows "details_id (href_at root a) = Some (lj_job_id x) \<and>
         (\<exists>c. job_find_result_card root a (lj_job_id x) = Some c)"
  using assms
  by (auto simp: job_stub_def Let_def split: option.splits if_splits)

lemma vacancy_stub_Some:
  assumes "vacancy_stub abs_url populate root a = Some x"
  shows "map_option upper (vacancy_ref_of (href_at root a)) = Some (lv_vacancy_ref x) \<and>
         (\<exists>c. app_find_result_card root a (lv_vacancy_ref x) = Some c)"
  using assms
  by (auto simp: vacancy_stub_def Let_def split: option.splits if_splits)

lemma extracted_job_anchor:
  assumes "x \<in> set (extract_jobs_from_list abs_url populate root)"
  shows "\<exists>a \<in> set (job_anchors root). job_stub abs_url populate root a = Some x"
  using assms dedup_by_subset [of lj_job_id "{}"]
  unfolding extract_jobs_from_list_def in_map_filter [symmetric] by blast

lemma extracted_vacancy_anchor:
  assumes "x \<in> set (extract_vacancies_from_list abs_url populate root)"
  shows "\<exists>a \<in> set (vacancy_anchors root). vacancy_stub abs_url populate root a = Some x"
  using assms dedup_by_subset [of lv_vacancy_ref "{}"]
  unfolding extract_vacancies_from_list_def in_map_filter [symmetric] by blast

lemma is_ancestor_prefix:
  assumes "is_ancestor c a"
  shows "\<exists>k. k < Suc (length a) \<and> c = take k a"
proof -
  from assms have t: "take (length c) a = c" by (simp add: is_ancestor_def)
  then have "length (take (length c) a) = length c" by simp
  then have "length c \<le> length a" by simp
  then have "length c < Suc (length a)" by arith
  with t show ?thesis by (intro exI [where x = "length c"]) simp
qed

lemma list_all_upt:
  assumes "list_all P [0..<n]" and "k < n"
  shows "P k"
  using assms by (simp only: list_all_iff set_upt atLeastLessThan_iff) simp

lemma no_job_card_by_prefixes:
  assumes "list_all (\<lambda>k. case subtree root (take k a) of None \<Rightarrow> True
                          | Some t \<Rightarrow> job_ids_in_node t \<noteq> {job_id}) [0..<Suc (length a)]"
  shows "\<forall>c. is_ancestor c a \<and> climbed a c < 15 \<longrightarrow>
           (\<forall>t. subtree root c = Some t \<longrightarrow> job_ids_in_node t \<noteq> {job_id})"
proof (intro allI impI)
  fix c t assume c: "is_ancestor c a \<and> climbed a c < 15" and t: "subtree root c = Some t"
  from c have "is_ancestor c a" by (rule conjunct1)
  then obtain k where k: "k < Suc (length a)" "c = take k a"
    using is_ancestor_prefix by blast
  from list_all_upt [OF assms k(1)] t k(2) show "job_ids_in_node t \<noteq> {job_id}"
    by simp
qed

lemma no_vacancy_card_by_prefixes:
  assumes "list_all (\<lambda>k. case subtree root (take k a) of None \<Rightarrow> True
              | Some t \<Rightarrow> \<not> (vac_refs_in_node t = {ref} \<and> card_confirmed t)) [0..<Suc (length a)]"
  shows "\<forall>c. is_ancestor c a \<and> climbed a c < 15 \<longrightarrow>
           (\<forall>t. subtree root c = Some t \<longrightarrow> \<not> (vac_refs_in_node t = {ref} \<and> card_confirmed t))"
proof (intro allI impI)
  fix c t assume c: "is_ancestor c a \<and> climbed a c < 15" and t: "subtree root c = Some t"
  from c have "is_ancestor c a" by (rule conjunct1)
  then obtain k where k: "k < Suc (length a)" "c = take k a"
    using is_ancestor_prefix by blast
  from list_all_upt [OF assms k(1)] t k(2)
  show "\<not> (vac_refs_in_node t = {ref} \<and> card_confirmed t)"
    by simp
qed


text \<open>
  C3. Every item the listing extractor yields was built from an anchor of the page
  whose link pattern gives the item's identifier, and the card search from that anchor
  returned one of the anchor's ancestors (the anchor itself included), fewer than 15
  parents up, whose reachable identifiers are exactly that one identifier. When no
  ancestor that close qualifies the search returns nothing and no item is built from the
  anchor. This holds for the job and the apprenticeship extractor (whose search asks in
  addition for two card labels or a container tag).
\<close>

theorem card_boundary:
  "(x \<in> set (extract_jobs_from_list abs_url populate root) \<longrightarrow>
      (\<exists>a c t. a \<in> set (job_anchors root) \<and>
          details_id (href_at root a) = Some (lj_job_id x) \<and>
          job_find_result_card root a (lj_job_id x) = Some c \<and> subtree root c = Some t \<and>
          job_ids_in_node t = {lj_job_id x} \<and> is_ancestor c a \<and> climbed a c < 15)) \<and>
   ((\<forall>c. is_ancestor c a \<and> climbed a c < 15 \<longrightarrow>
         (\<forall>t. subtree root c = Some t \<longrightarrow> job_ids_in_node t \<noteq> {job_id})) \<and>
     details_id (href_at root a) = Some job_id \<longrightarrow>
       job_find_result_card root a job_id = None \<and> job_stub abs_url populate root a = None) \<and>
   (y \<in> set (extract_vacancies_from_list abs_url populate' root) \<longrightarrow>
      (\<exists>a c t. a \<in> set (vacancy_anchors root) \<and>
          map_option upper (vacancy_ref_of (href_at root a)) = Some (lv_vacancy_ref y) \<and>
          app_find_result_card root a (lv_vacancy_ref y) = Some c \<and> subtree root c = Some t \<and>
          vac_refs_in_node t = {lv_vacancy_ref y} \<and> is_ancestor c a \<and> climbed a c < 15)) \<and>
   ((\<forall>c. is_ancestor c a \<and> climbed a c < 15 \<longrightarrow>
         (\<forall>t. subtree root c = Some t \<longrightarrow> \<not> (vac_refs_in_node t = {ref} \<and> card_confirmed t))) \<and>
     map_option upper (vacancy_ref_of (href_at root a)) = Some ref \<longrightarrow>
       app_find_result_card root a ref = None \<and> vacancy_stub abs_url populate' root a = None)"
proof (intro conjI impI)
  assume "x \<in> set (extract_jobs_from_list abs_url populate root)"
  then obtain a where a: "a \<in> set (job_anchors root)" "job_stub abs_url populate root a = Some x"
    using extracted_job_anchor by blast
  from job_stub_Some [OF a(2)] obtain c where
    c: "details_id (href_at root a) = Some (lj_job_id x)"
      "job_find_result_card root a (lj_job_id x) = Some c"
    by blast
  from c(2) have "job_card_loop 15 root (Some a) (lj_job_id x) = Some c"
    by (simp add: job_find_result_card_def)
  from job_card_loop_sound [OF this] obtain t where
    "subtree root c = Some t" "job_ids_in_node t = {lj_job_id x}" "is_ancestor c a" "climbed a c < 15"
    by blast
  with a(1) c show "\<exists>a c t. a \<in> set (job_anchors root) \<and>
          details_id (href_at root a) = Some (lj_job_id x) \<and>
          job_find_result_card root a (lj_job_id x) = Some c \<and> subtree root c = Some t \<and>
          job_ids_in_node t = {lj_job_id x} \<and> is_ancestor c a \<and> climbed a c < 15"
    by blast
next
  assume h: "(\<forall>c. is_ancestor c a \<and> climbed a c < 15 \<longrightarrow>
         (\<forall>t. subtree root c = Some t \<longrightarrow> job_ids_in_node t \<noteq> {job_id})) \<and>
     details_id (href_at root a) = Some job_id"
  then show none: "job_find_result_card root a job_id = None"
    unfolding job_find_result_card_def by (intro job_card_loop_complete) blast
  with h show "job_stub abs_url populate root a = None"
    by (simp add: job_stub_def Let_def)
next
  assume "y \<in> set (extract_vacancies_from_list abs_url populate' root)"
  then obtain a where a: "a \<in> set (vacancy_anchors root)"
      "vacancy_stub abs_url populate' root a = Some y"
    using extracted_vacancy_anchor by blast
  from vacancy_stub_Some [OF a(2)] obtain c where
    c: "map_option upper (vacancy_ref_of (href_at root a)) = Some (lv_vacancy_ref y)"
      "app_find_result_card root a (lv_vacancy_ref y) = Some c"
    by blast
  from c(2) have "app_card_loop 15 root (Some a) (lv_vacancy_ref y) = Some c"
    by (simp add: app_find_result_card_def)
  from app_card_loop_sound [OF this] obtain t where
    "subtree root c = Some t" "vac_refs_in_node t = {lv_vacancy_ref y}"
    "is_ancestor c a" "climbed a c < 15"
    by blast
  with a(1) c show "\<exists>a c t. a \<in> set (vacancy_anchors root) \<and>
          map_option upper (vacancy_ref_of (href_at root a)) = Some (lv_vacancy_ref y) \<and>
          app_find_result_card root a (lv_vacancy_ref y) = Some c \<and> subtree root c = Some t \<and>
          vac_refs_in_node t = {lv_vacancy_ref y} \<and> is_ancestor c a \<and> climbed a c < 15"
    by blast
next
  assume h: "(\<forall>c. is_ancestor c a \<and> climbed a c < 15 \<longrightarrow>
         (\<forall>t. subtree root c = Some t \<longrightarrow> \<not> (vac_refs_in_node t = {ref} \<and> card_confirmed t))) \<and>
     map_option upper (vacancy_ref_of (href_at root a)) = Some ref"
  then show none: "app_find_result_card root a ref = None"
    unfolding app_find_result_card_def by (intro app_card_loop_complete) blast
  with h show "vacancy_stub abs_url populate' root a = None"
    by (auto simp: vacancy_stub_def Let_def split: option.splits)
qed

theorem card_boundary_witness:
  "(stub_job [])\<lparr>lj_job_id := ''17'', lj_url := ''/details/17'', lj_title := ''Chef''\<rparr>
     \<in> set (extract_jobs_from_list id plain_job listing_page) \<and>
   (\<exists>a c t. a \<in> set (job_anchors listing_page) \<and>
       details_id (href_at listing_page a) = Some ''17'' \<and>
       job_find_result_card listing_page a ''17'' = Some c \<and> subtree listing_page c = Some t \<and>
       job_ids_in_node t = {''17''} \<and> is_ancestor c a \<and> climbed a c < 15) \<and>
   details_id (href_at crowded_page [0, 0]) = Some ''1'' \<and>
   job_find_result_card crowded_page [0, 0] ''1'' = None \<and>
   job_stub id plain_job crowded_page [0, 0] = None \<and>
   (stub_vacancy [])\<lparr>lv_vacancy_ref := ''VAC1001'', lv_url := ''/apprenticeship/vac1001'',
       lv_title := ''Cook''\<rparr>
     \<in> set (extract_vacancies_from_list id plain_vacancy vacancy_page) \<and>
   (\<exists>a c t. a \<in> set (vacancy_anchors vacancy_page) \<and>
       map_option upper (vacancy_ref_of (href_at vacancy_page a)) = Some ''VAC1001'' \<and>
       app_find_result_card vacancy_page a ''VAC1001'' = Some c \<and>
       subtree vacancy_page c = Some t \<and>
       vac_refs_in_node t = {''VAC1001''} \<and> is_ancestor c a \<and> climbed a c < 15) \<and>
   map_option upper (vacancy_ref_of (href_at crowded_vacancies [0, 1])) = Some ''VAC2'' \<and>
   app_find_result_card crowded_vacancies [0, 1] ''VAC2'' = None \<and>
   vacancy_stub id plain_vacancy crowded_vacancies [0, 1] = None"
proof -
  let ?x = "(stub_job [])\<lparr>lj_job_id := ''17'', lj_url := ''/details/17'', lj_title := ''Chef''\<rparr>"
  let ?y = "(stub_vacancy [])\<lparr>lv_vacancy_ref := ''VAC1001'',
       lv_url := ''/apprenticeship/vac1001'', lv_title := ''Cook''\<rparr>"
  have x: "?x \<in> set (extract_jobs_from_list id plain_job listing_page)"
    by code_simp
  have xid: "lj_job_id ?x = ''17''"
    by simp
  note j1 = card_boundary [where x = ?x and abs_url = id and populate = plain_job
      and root = listing_page, THEN conjunct1, THEN mp, OF x, unfolded xid]
  have d: "details_id (href_at crowded_page [0, 0]) = Some ''1''"
    by code_simp
  have "list_all (\<lambda>k. case subtree crowded_page (take k [0, 0]) of None \<Rightarrow> True
                          | Some t \<Rightarrow> job_ids_in_node t \<noteq> {''1''}) [0..<Suc (length [0, 0 :: nat])]"
    by code_simp
  then have n: "\<forall>c. is_ancestor c [0, 0] \<and> climbed [0, 0] c < 15 \<longrightarrow>
           (\<forall>t. subtree crowded_page c = Some t \<longrightarrow> job_ids_in_node t \<noteq> {''1''})"
    by (rule no_job_card_by_prefixes)
  note j2 = card_boundary [where a = "[0, 0]" and job_id = "''1''" and abs_url = id
      and populate = plain_job and root = crowded_page,
      THEN conjunct2, THEN conjunct1, THEN mp, OF conjI [OF n d]]
  have y: "?y \<in> set (extract_vacancies_from_list id plain_vacancy vacancy_page)"
    by code_simp
  have yid: "lv_vacancy_ref ?y = ''VAC1001''"
    by simp
  note a1 = card_boundary [where y = ?y and abs_url = id and populate' = plain_vacancy
      and root = vacancy_page, THEN conjunct2, THEN conjunct2, THEN conjunct1, THEN mp, OF y,
      unfolded yid]
  have e: "map_option upper (vacancy_ref_of (href_at crowded_vacancies [0, 1])) = Some ''VAC2''"
    by code_simp
  have "list_all (\<lambda>k. case subtree crowded_vacancies (take k [0, 1]) of None \<Rightarrow> True
              | Some t \<Rightarrow> \<not> (vac_refs_in_node t = {''VAC2''} \<and> card_confirmed t))
          [0..<Suc (length [0, 1 :: nat])]"
    by code_simp
  then have m: "\<forall>c. is_ancestor c [0, 1] \<and> climbed [0, 1] c < 15 \<longrightarrow>
           (\<forall>t. subtree crowded_vacancies c = Some t \<longrightarrow>
              \<not> (vac_refs_in_node t = {''VAC2''} \<and> card_confirmed t))"
    by (rule no_vacancy_card_by_prefixes)
  note a2 = card_boundary [where a = "[0, 1]" and ref = "''VAC2''" and abs_url = id
      and populate' = plain_vacancy and root = crowded_vacancies,
      THEN conjunct2, THEN conjunct2, THEN conjunct2, THEN mp, OF conjI [OF m e]]
  from x j1 d j2 y a1 e a2 show ?thesis
    by (intro conjI) (erule conjunct1 conjunct2 | assumption)+
qed


section \<open>The loops of a run keep the audit invariant\<close>

lemma should_stop_yielded [simp]:
  "should_stop m (st\<lparr>rs_yielded := y\<rparr>) = should_stop m st"
  by (simp add: should_stop_def)

lemma should_stop_seen [simp]:
  "should_stop m (st\<lparr>rs_seen := y\<rparr>) = should_stop m st"
  by (simp add: should_stop_def)

lemma run_inv_yielded:
  assumes "run_inv log0 st"
  shows "run_inv log0 (st\<lparr>rs_yielded := rs_yielded st @ [r]\<rparr>)"
proof -
  from assms obtain new where n:
    "rs_log st = log0 @ new"
    "\<forall>r. length (terminal_for r new) = (if r \<in> rs_seen st then 1 else 0)"
    "\<forall>r. length (image_errors_for r new) \<le> length (terminal_for r new)"
    "distinct (map le_ref (filter terminal new))"
    "set (map le_ref (filter terminal new)) = rs_seen st"
    "finite (rs_seen st)" "card (rs_seen st) = length (rs_fetched st)"
    "length (rs_hook_calls st) \<le> length (rs_fetched st)"
    "rs_seen st \<subseteq> set (rs_yielded st)"
    unfolding run_inv_def by (elim exE conjE)
  from n(9) have "rs_seen st \<subseteq> set (rs_yielded st @ [r])"
    by (simp add: subset_insertI2)
  with n show ?thesis
    unfolding run_inv_def by (intro exI [where x = new]) simp
qed

lemma terminal_not_image_error:
  "terminal e \<Longrightarrow> le_status e \<noteq> ''image_error''"
  by (auto simp: terminal_def)

lemma run_inv_process:
  assumes h: "handles_one ref_of process"
    and inv: "run_inv log0 st"
    and new: "ref_of x \<notin> rs_seen st"
    and y: "ref_of x \<in> set (rs_yielded st)"
  shows "run_inv log0 (process x (st\<lparr>rs_seen := insert (ref_of x) (rs_seen st)\<rparr>))"
proof -
  let ?st1 = "st\<lparr>rs_seen := insert (ref_of x) (rs_seen st)\<rparr>"
  let ?st2 = "process x ?st1"
  from h [unfolded handles_one_def, rule_format, of x ?st1]
  obtain img t where
    log: "rs_log ?st2 = rs_log ?st1 @ img @ [t]" and
    t: "le_ref t = ref_of x" "terminal t" and
    img: "length img \<le> 1" "\<forall>e \<in> set img. le_ref e = ref_of x \<and> le_status e = ''image_error''" and
    seen: "rs_seen ?st2 = rs_seen ?st1" and
    yielded: "rs_yielded ?st2 = rs_yielded ?st1" and
    fetched: "length (rs_fetched ?st2) = Suc (length (rs_fetched ?st1))" and
    hook: "length (rs_hook_calls ?st2) \<le> Suc (length (rs_hook_calls ?st1))"
    by (elim exE conjE)
  from inv obtain new where
    l0: "rs_log st = log0 @ new" and
    c1: "\<forall>r. length (terminal_for r new) = (if r \<in> rs_seen st then 1 else 0)" and
    c2: "\<forall>r. length (image_errors_for r new) \<le> length (terminal_for r new)" and
    d: "distinct (map le_ref (filter terminal new))" and
    s: "set (map le_ref (filter terminal new)) = rs_seen st" and
    f: "finite (rs_seen st)" and
    c: "card (rs_seen st) = length (rs_fetched st)" and
    hk: "length (rs_hook_calls st) \<le> length (rs_fetched st)" and
    sub: "rs_seen st \<subseteq> set (rs_yielded st)"
    unfolding run_inv_def by (elim exE conjE)
  have img_nt: "filter terminal img = []"
    using img(2) by (auto simp: filter_empty_conv dest: terminal_not_image_error)
  have img_t: "terminal_for r img = []" for r
    using img(2) by (auto simp: terminal_for_def filter_empty_conv dest: terminal_not_image_error)
  have img_e: "length (image_errors_for r img) \<le> (if r = ref_of x then 1 else 0)" for r
  proof (cases "r = ref_of x")
    case True
    have "length (image_errors_for r img) \<le> length img"
      by (simp add: image_errors_for_def)
    with img(1) True show ?thesis by simp
  next
    case False
    with img(2) have "image_errors_for r img = []"
      by (auto simp: image_errors_for_def filter_empty_conv)
    then show ?thesis by simp
  qed
  have t_e: "image_errors_for r [t] = []" for r
    using t(2) by (auto simp: image_errors_for_def dest: terminal_not_image_error)
  have t_t: "length (terminal_for r [t]) = (if r = ref_of x then 1 else 0)" for r
    using t by (auto simp: terminal_for_def)
  let ?new = "new @ img @ [t]"
  have 1: "rs_log ?st2 = log0 @ ?new"
    using log l0 by simp
  have 2: "length (terminal_for r ?new) = (if r \<in> rs_seen ?st2 then 1 else 0)" for r
  proof -
    have "length (terminal_for r ?new) =
        length (terminal_for r new) + length (terminal_for r img) + length (terminal_for r [t])"
      by (simp add: terminal_for_def)
    also have "\<dots> = (if r \<in> rs_seen st then 1 else 0) + (if r = ref_of x then 1 else 0)"
      using c1 img_t t_t by simp
    also have "\<dots> = (if r \<in> rs_seen ?st2 then 1 else 0)"
      using new seen by auto
    finally show ?thesis .
  qed
  have 3: "length (image_errors_for r ?new) \<le> length (terminal_for r ?new)" for r
  proof -
    have "length (image_errors_for r ?new) =
        length (image_errors_for r new) + length (image_errors_for r img)
          + length (image_errors_for r [t])"
      by (simp add: image_errors_for_def)
    also have "\<dots> \<le> length (terminal_for r new) + (if r = ref_of x then 1 else 0)"
      using c2 [rule_format, of r] img_e [of r] t_e [of r] by simp
    also have "\<dots> = length (terminal_for r new) + length (terminal_for r img)
          + length (terminal_for r [t])"
      using img_t t_t by simp
    also have "\<dots> = length (terminal_for r ?new)"
      by (simp add: terminal_for_def)
    finally show ?thesis .
  qed
  have ft: "map le_ref (filter terminal ?new) = map le_ref (filter terminal new) @ [ref_of x]"
    using img_nt t by simp
  have 4: "distinct (map le_ref (filter terminal ?new))"
    unfolding ft using d s new by simp
  have 5: "set (map le_ref (filter terminal ?new)) = rs_seen ?st2"
    unfolding ft using s seen by simp
  have 6: "finite (rs_seen ?st2)"
    using f seen by simp
  have 7: "card (rs_seen ?st2) = length (rs_fetched ?st2)"
    using f new c fetched seen by simp
  have 8: "length (rs_hook_calls ?st2) \<le> length (rs_fetched ?st2)"
    using hk hook fetched by simp
  have 9: "rs_seen ?st2 \<subseteq> set (rs_yielded ?st2)"
    using sub y seen yielded by simp
  show ?thesis
    unfolding run_inv_def
    using 1 2 3 4 5 6 7 8 9 by (intro exI [where x = ?new] conjI allI)
qed


lemma run_inv_aborted:
  assumes "run_inv log0 st"
  shows "run_inv log0 (st\<lparr>rs_aborted := True\<rparr>)"
  using assms unfolding run_inv_def by simp

lemma run_inv_start:
  "run_inv log (start_state db log now)"
  unfolding run_inv_def start_state_def
  by (intro exI [where x = "[]"]) (simp add: terminal_for_def image_errors_for_def)



lemma item_loop_run_inv:
  assumes h: "handles_one ref_of process"
  shows "run_inv log0 st \<Longrightarrow> run_inv log0 (item_loop ref_of process max_rows items st)"
proof (induction items arbitrary: st)
  case Nil
  then show ?case by simp
next
  case (Cons p rest)
  show ?case
  proof (cases p)
    case (Crash e)
    with Cons.prems show ?thesis
      by (simp add: run_inv_aborted)
  next
    case (Item x)
    let ?st1 = "st\<lparr>rs_yielded := rs_yielded st @ [ref_of x]\<rparr>"
    have i1: "run_inv log0 ?st1"
      using Cons.prems by (rule run_inv_yielded)
    show ?thesis
    proof (cases "should_stop max_rows st")
      case True
      with Item i1 show ?thesis by (simp add: Let_def)
    next
      case ns: False
      show ?thesis
      proof (cases "ref_of x \<in> rs_seen st")
        case True
        with Item ns Cons.IH [OF i1] show ?thesis by (simp add: Let_def)
      next
        case False
        have "run_inv log0 (process x (?st1\<lparr>rs_seen := insert (ref_of x) (rs_seen ?st1)\<rparr>))"
          by (rule run_inv_process [OF h i1]) (use False in simp_all)
        from Cons.IH [OF this] Item ns False show ?thesis by (simp add: Let_def)
      qed
    qed
  qed
qed


lemma sub_loop_run_inv:
  assumes h: "\<And>c s u. handles_one ref_of (process c s u)"
  shows "run_inv log0 st \<Longrightarrow>
    run_inv log0 (sub_loop ref_of process max_rows build_search_url crawl category subs st)"
proof (induction subs arbitrary: st)
  case Nil
  then show ?case by simp
next
  case (Cons sub subs)
  from Cons.prems have "run_inv log0 (item_loop ref_of (process category sub (build_search_url sub))
      max_rows (crawl (build_search_url sub)) st)"
    by (rule item_loop_run_inv [OF h])
  from Cons.IH [OF this] Cons.prems show ?case by simp
qed


lemma category_loop_run_inv:
  assumes h: "\<And>c s u. handles_one ref_of (process c s u)"
  shows "run_inv log0 st \<Longrightarrow>
    run_inv log0 (category_loop ref_of process max_rows build_search_url crawl cats st)"
proof (induction cats arbitrary: st)
  case Nil
  then show ?case by simp
next
  case (Cons c cats)
  obtain category subcats where c: "c = (category, subcats)"
    by (cases c)
  from Cons.prems have "run_inv log0
      (sub_loop ref_of process max_rows build_search_url crawl category subcats st)"
    by (rule sub_loop_run_inv [OF h])
  from Cons.IH [OF this] Cons.prems c show ?case by simp
qed



section \<open>What processing one apprenticeship does to the run state\<close>

lemma upsert_smart_status:
  "fst (fst (upsert_smart now ref url data cat sub run db)) \<in> set [''created'', ''updated'', ''skipped'']"
proof (cases "db ref")
  case None
  then show ?thesis by (simp add: upsert_smart_created)
next
  case (Some old)
  from upsert_smart_existing_row [where db = db and ref = ref, OF Some refl, of now url data cat sub run]
  obtain r changed where "upsert_smart now ref url data cat sub run db =
       ((if changed = [] then ''skipped'' else ''updated'',
         if changed = [] then [] else ''changed_fields='' @ join '','' changed),
        db(ref \<mapsto> r))"
    by (elim exE conjE)
  then show ?thesis by simp
qed

lemma app_image_step_frame:
  "rs_seen (app_image_step hook run c s u refresh f listed st) = rs_seen st \<and>
   rs_yielded (app_image_step hook run c s u refresh f listed st) = rs_yielded st \<and>
   rs_aborted (app_image_step hook run c s u refresh f listed st) = rs_aborted st \<and>
   rs_fetched (app_image_step hook run c s u refresh f listed st) = rs_fetched st \<and>
   rs_clock (app_image_step hook run c s u refresh f listed st) = rs_clock st \<and>
   rs_created (app_image_step hook run c s u refresh f listed st) = rs_created st \<and>
   rs_updated (app_image_step hook run c s u refresh f listed st) = rs_updated st \<and>
   rs_skipped (app_image_step hook run c s u refresh f listed st) = rs_skipped st \<and>
   rs_error (app_image_step hook run c s u refresh f listed st) = rs_error st"
  by (simp add: app_image_step_def log_row_def Let_def del: first_truthy.simps split: option.splits sum.splits)



lemma app_image_step_log_cases:
  "rs_log (app_image_step hook run c s u refresh f listed st) = rs_log st \<or>
   (\<exists>m. rs_log (app_image_step hook run c s u refresh f listed st) = rs_log st @
      [\<lparr>le_run_id = run, le_category = c, le_keyword = s, le_start_url = u,
        le_ref = lv_vacancy_ref listed, le_status = ''image_error'', le_message = m\<rparr>])"
  by (simp add: app_image_step_def log_row_def Let_def del: first_truthy.simps
        split: option.splits sum.splits)

lemma app_image_step_log:
  "\<exists>img. rs_log (app_image_step hook run c s u refresh f listed st) = rs_log st @ img \<and>
     length img \<le> 1 \<and>
     (\<forall>e \<in> set img. le_ref e = lv_vacancy_ref listed \<and> le_status e = ''image_error'')"
proof -
  let ?st' = "app_image_step hook run c s u refresh f listed st"
  from app_image_step_log_cases [of hook run c s u refresh f listed st]
  show ?thesis
  proof (elim disjE exE)
    assume "rs_log ?st' = rs_log st"
    then show ?thesis by (intro exI [where x = "[]"]) simp
  next
    fix m
    assume "rs_log ?st' = rs_log st @
           [\<lparr>le_run_id = run, le_category = c, le_keyword = s, le_start_url = u,
             le_ref = lv_vacancy_ref listed, le_status = ''image_error'', le_message = m\<rparr>]"
    then show ?thesis
      by (intro exI [where x = "[\<lparr>le_run_id = run, le_category = c, le_keyword = s,
            le_start_url = u, le_ref = lv_vacancy_ref listed, le_status = ''image_error'',
            le_message = m\<rparr>]"]) simp
  qed
qed

lemma app_image_step_hook_calls:
  "length (rs_hook_calls (app_image_step hook run c s u refresh f listed st))
     \<le> Suc (length (rs_hook_calls st))"
  by (simp add: app_image_step_def log_row_def Let_def del: first_truthy.simps
        split: option.splits sum.splits)


lemma image_field_eq:
  "image_field = Some ''image_url''"
  by (simp add: image_field_def vacancy_fields_def)

lemma process_one_Inl:
  assumes "svd (lv_url listed) = Inl e"
  shows "process_one svd hook run ni rf c s u listed st =
     (''error'', log_row run c s u (lv_vacancy_ref listed) ''error'' e
        (st\<lparr>rs_fetched := rs_fetched st @ [lv_url listed]\<rparr>))"
  using assms by (simp add: process_one_def Let_def)

lemma process_one_Inr:
  assumes d: "svd (lv_url listed) = Inr details"
    and up: "upsert_smart (rs_clock st) (lv_vacancy_ref listed) (lv_url listed)
        (merge_listing details listed) c s run (rs_table st) = ((status, msg), db)"
  shows "process_one svd hook run ni rf c s u listed st =
     (status, log_row run c s u (lv_vacancy_ref listed) status msg
        (if ni then st\<lparr>rs_fetched := rs_fetched st @ [lv_url listed], rs_table := db\<rparr>
         else app_image_step hook run c s u rf ''image_url'' listed
                (st\<lparr>rs_fetched := rs_fetched st @ [lv_url listed], rs_table := db\<rparr>)))"
  using d up by (simp add: process_one_def Let_def image_field_eq)

lemma terminal_status:
  "terminal e \<longleftrightarrow> le_status e = ''error'' \<or> le_status e = ''created'' \<or>
     le_status e = ''updated'' \<or> le_status e = ''skipped''"
  by (simp add: terminal_def)


lemma process_one_shape:
  fixes svd hook run ni rf c s u listed st
  defines "P \<equiv> process_one svd hook run ni rf c s u listed st"
  shows "\<exists>img t. rs_log (snd P) = rs_log st @ img @ [t] \<and>
     le_ref t = lv_vacancy_ref listed \<and> le_status t = fst P \<and> terminal t \<and>
     length img \<le> 1 \<and>
     (\<forall>e \<in> set img. le_ref e = lv_vacancy_ref listed \<and> le_status e = ''image_error'') \<and>
     rs_seen (snd P) = rs_seen st \<and> rs_yielded (snd P) = rs_yielded st \<and>
     rs_aborted (snd P) = rs_aborted st \<and>
     rs_fetched (snd P) = rs_fetched st @ [lv_url listed] \<and>
     length (rs_hook_calls (snd P)) \<le> Suc (length (rs_hook_calls st))"
proof (cases "svd (lv_url listed)")
  case (Inl e)
  let ?t = "\<lparr>le_run_id = run, le_category = c, le_keyword = s, le_start_url = u,
             le_ref = lv_vacancy_ref listed, le_status = ''error'', le_message = e\<rparr>"
  have "P = (''error'', log_row run c s u (lv_vacancy_ref listed) ''error'' e
        (st\<lparr>rs_fetched := rs_fetched st @ [lv_url listed]\<rparr>))"
    unfolding P_def using Inl by (rule process_one_Inl)
  then show ?thesis
    by (intro exI [where x = "[]"] exI [where x = ?t])
       (simp add: log_row_def terminal_status)
next
  case (Inr details)
  obtain status msg db where up:
    "upsert_smart (rs_clock st) (lv_vacancy_ref listed) (lv_url listed)
        (merge_listing details listed) c s run (rs_table st) = ((status, msg), db)"
    by (metis surj_pair)
  let ?st1 = "st\<lparr>rs_fetched := rs_fetched st @ [lv_url listed], rs_table := db\<rparr>"
  let ?st2 = "if ni then ?st1 else app_image_step hook run c s u rf ''image_url'' listed ?st1"
  let ?t = "\<lparr>le_run_id = run, le_category = c, le_keyword = s, le_start_url = u,
             le_ref = lv_vacancy_ref listed, le_status = status, le_message = msg\<rparr>"
  have P: "P = (status, log_row run c s u (lv_vacancy_ref listed) status msg ?st2)"
    unfolding P_def using Inr up by (rule process_one_Inr)
  from upsert_smart_status [of "rs_clock st" "lv_vacancy_ref listed" "lv_url listed"
      "merge_listing details listed" c s run "rs_table st"] up
  have st: "status = ''created'' \<or> status = ''updated'' \<or> status = ''skipped''"
    by simp
  then have trm: "terminal ?t"
    by (auto simp: terminal_status)
  obtain img where img: "rs_log ?st2 = rs_log st @ img" "length img \<le> 1"
    "\<forall>e \<in> set img. le_ref e = lv_vacancy_ref listed \<and> le_status e = ''image_error''"
  proof (cases ni)
    case True
    then have "rs_log ?st2 = rs_log st @ []" by simp
    then show ?thesis by (rule that) simp_all
  next
    case False
    from app_image_step_log [of hook run c s u rf "''image_url''" listed ?st1]
    obtain img where "rs_log (app_image_step hook run c s u rf ''image_url'' listed ?st1)
        = rs_log ?st1 @ img" "length img \<le> 1"
      "\<forall>e \<in> set img. le_ref e = lv_vacancy_ref listed \<and> le_status e = ''image_error''"
      by (elim exE conjE)
    with False show ?thesis by (intro that [of img]) simp_all
  qed
  have frame: "rs_seen ?st2 = rs_seen st \<and> rs_yielded ?st2 = rs_yielded st \<and>
      rs_aborted ?st2 = rs_aborted st \<and> rs_fetched ?st2 = rs_fetched st @ [lv_url listed]"
    using app_image_step_frame [of hook run c s u rf "''image_url''" listed ?st1]
    by (cases ni) simp_all
  have hk: "length (rs_hook_calls ?st2) \<le> Suc (length (rs_hook_calls st))"
    using app_image_step_hook_calls [of hook run c s u rf "''image_url''" listed ?st1]
    by (cases ni) simp_all
  have log: "rs_log (snd P) = rs_log st @ img @ [?t]"
    unfolding P using img(1) by (simp add: log_row_def)
  have rest: "rs_seen (snd P) = rs_seen ?st2" "rs_yielded (snd P) = rs_yielded ?st2"
    "rs_aborted (snd P) = rs_aborted ?st2" "rs_fetched (snd P) = rs_fetched ?st2"
    "rs_hook_calls (snd P) = rs_hook_calls ?st2" "fst P = status"
    unfolding P by (simp_all add: log_row_def)
  show ?thesis
    apply (intro exI [where x = img] exI [where x = ?t] conjI)
    using log trm img(2,3) frame hk rest by simp_all
qed

lemma app_handle_item_handles:
  "handles_one lv_vacancy_ref (app_handle_item svd hook run ni rf c s u)"
  unfolding handles_one_def
proof (intro allI)
  fix listed st
  let ?P = "process_one svd hook run ni rf c s u listed st"
  let ?H = "app_handle_item svd hook run ni rf c s u listed st"
  have same: "rs_log ?H = rs_log (snd ?P)" "rs_seen ?H = rs_seen (snd ?P)"
    "rs_yielded ?H = rs_yielded (snd ?P)" "rs_aborted ?H = rs_aborted (snd ?P)"
    "rs_fetched ?H = rs_fetched (snd ?P)" "rs_hook_calls ?H = rs_hook_calls (snd ?P)"
    by (simp_all add: app_handle_item_def Let_def split_beta)
  from process_one_shape [of svd hook run ni rf c s u listed st]
  obtain img t where
    "rs_log (snd ?P) = rs_log st @ img @ [t]" "le_ref t = lv_vacancy_ref listed" "terminal t"
    "length img \<le> 1"
    "\<forall>e \<in> set img. le_ref e = lv_vacancy_ref listed \<and> le_status e = ''image_error''"
    "rs_seen (snd ?P) = rs_seen st" "rs_yielded (snd ?P) = rs_yielded st"
    "rs_aborted (snd ?P) = rs_aborted st"
    "rs_fetched (snd ?P) = rs_fetched st @ [lv_url listed]"
    "length (rs_hook_calls (snd ?P)) \<le> Suc (length (rs_hook_calls st))"
    by (elim exE conjE)
  then show "\<exists>img t. rs_log ?H = rs_log st @ img @ [t] \<and>
        le_ref t = lv_vacancy_ref listed \<and> terminal t \<and> length img \<le> 1 \<and>
        (\<forall>e \<in> set img. le_ref e = lv_vacancy_ref listed \<and> le_status e = ''image_error'') \<and>
        rs_seen ?H = rs_seen st \<and> rs_yielded ?H = rs_yielded st \<and>
        rs_aborted ?H = rs_aborted st \<and>
        length (rs_fetched ?H) = Suc (length (rs_fetched st)) \<and>
        length (rs_hook_calls ?H) \<le> Suc (length (rs_hook_calls st))"
    unfolding same by (intro exI [where x = img] exI [where x = t]) simp
qed


section \<open>What processing one job does to the run state\<close>

lemma image_in_job_fields:
  "''image_url'' \<in> set job_fields"
  by (simp add: job_fields_def)

lemma job_image_step_frame:
  fixes hook run c s u listed sv obj ch st
  defines "st' \<equiv> snd (snd (job_image_step hook run c s u listed sv (obj, ch, st)))"
  shows "rs_seen st' = rs_seen st \<and> rs_yielded st' = rs_yielded st \<and>
     rs_aborted st' = rs_aborted st \<and> rs_fetched st' = rs_fetched st \<and>
     rs_clock st' = rs_clock st \<and> rs_table st' = rs_table st \<and>
     rs_created st' = rs_created st \<and> rs_updated st' = rs_updated st \<and>
     rs_skipped st' = rs_skipped st \<and> rs_error st' = rs_error st"
  unfolding st'_def
  by (simp add: job_image_step_def log_row_def Let_def del: first_truthy.simps
        split: option.splits sum.splits)

lemma job_image_step_log_cases:
  fixes hook run c s u listed sv obj ch st
  defines "st' \<equiv> snd (snd (job_image_step hook run c s u listed sv (obj, ch, st)))"
  shows "rs_log st' = rs_log st \<or>
   (\<exists>m. rs_log st' = rs_log st @
      [\<lparr>le_run_id = run, le_category = c, le_keyword = s, le_start_url = u,
        le_ref = lj_job_id listed, le_status = ''image_error'', le_message = m\<rparr>])"
  unfolding st'_def
  by (simp add: job_image_step_def log_row_def Let_def del: first_truthy.simps
        split: option.splits sum.splits)

lemma job_image_step_log:
  "\<exists>img. rs_log (snd (snd (job_image_step hook run c s u listed sv (obj, ch, st))))
        = rs_log st @ img \<and>
     length img \<le> 1 \<and>
     (\<forall>e \<in> set img. le_ref e = lj_job_id listed \<and> le_status e = ''image_error'')"
proof -
  let ?st' = "snd (snd (job_image_step hook run c s u listed sv (obj, ch, st)))"
  from job_image_step_log_cases [of hook run c s u listed sv obj ch st]
  show ?thesis
  proof (elim disjE exE)
    assume "rs_log ?st' = rs_log st"
    then show ?thesis by (intro exI [where x = "[]"]) simp
  next
    fix m
    assume "rs_log ?st' = rs_log st @
           [\<lparr>le_run_id = run, le_category = c, le_keyword = s, le_start_url = u,
             le_ref = lj_job_id listed, le_status = ''image_error'', le_message = m\<rparr>]"
    then show ?thesis
      by (intro exI [where x = "[\<lparr>le_run_id = run, le_category = c, le_keyword = s,
            le_start_url = u, le_ref = lj_job_id listed, le_status = ''image_error'',
            le_message = m\<rparr>]"]) simp
  qed
qed

lemma job_image_step_hook_calls:
  "length (rs_hook_calls (snd (snd (job_image_step hook run c s u listed sv (obj, ch, st)))))
     \<le> Suc (length (rs_hook_calls st))"
  by (simp add: job_image_step_def log_row_def Let_def del: first_truthy.simps
        split: option.splits sum.splits)


lemma process_job_Inl:
  assumes "sjd (lj_url listed) = Inl e"
  shows "process_job sjd hook run ni c s u listed st =
     log_row run c s u (lj_job_id listed) ''error'' e
       (st\<lparr>rs_fetched := rs_fetched st @ [lj_url listed], rs_clock := Suc (rs_clock st),
           rs_error := Suc (rs_error st)\<rparr>)"
  using assms by (simp add: process_job_def Let_def)

lemma process_job_Inr:
  fixes sjd hook run ni c s u listed st details
  defines "st0 \<equiv> st\<lparr>rs_fetched := rs_fetched st @ [lj_url listed], rs_clock := Suc (rs_clock st)\<rparr>"
    and "sv \<equiv> job_safe_vals (merge_job details listed c s)"
  defines "stored \<equiv> (case rs_table st (lj_job_id listed) of
                        None \<Rightarrow> insert_job (rs_clock st) (lj_job_id listed) sv
                      | Some r \<Rightarrow> r)"
  defines "D \<equiv> (if rs_table st (lj_job_id listed) = None then (stored, [])
                 else job_changes sv c s stored)"
  defines "R \<equiv> (if \<not> ni then job_image_step hook run c s u listed sv (fst D, snd D, st0)
                 else (fst D, snd D, st0))"
  defines "status \<equiv> (if rs_table st (lj_job_id listed) = None then ''created''
                      else if fst (snd R) \<noteq> [] then ''updated'' else ''skipped'')"
  defines "obj3 \<equiv> (fst R)(''last_checked_at'' := Stamp (rs_clock st),
                            ''last_scrape_run_id'' := Uuid run,
                            ''last_scrape_status'' := Str status,
                            ''last_scrape_message'' := Str [])"
  defines "saved \<equiv> (if rs_table st (lj_job_id listed) = None
                     then obj3(''scraped_at'' := Stamp (rs_clock st))
                     else django_save (rs_clock st) stored obj3
                            (fst (snd R) @
                             [''last_checked_at'', ''last_scrape_run_id'',
                              ''last_scrape_status'', ''last_scrape_message'',
                              ''scraped_at'']))"
  defines "st2 \<equiv> (if rs_table st (lj_job_id listed) = None
                   then (snd (snd R))\<lparr>rs_created := Suc (rs_created (snd (snd R)))\<rparr>
                   else if fst (snd R) \<noteq> []
                        then (snd (snd R))\<lparr>rs_updated := Suc (rs_updated (snd (snd R)))\<rparr>
                        else (snd (snd R))\<lparr>rs_skipped := Suc (rs_skipped (snd (snd R)))\<rparr>)"
  assumes d: "sjd (lj_url listed) = Inr details"
  shows "process_job sjd hook run ni c s u listed st =
     log_row run c s u (lj_job_id listed) status []
       (st2\<lparr>rs_table := (rs_table st2)(lj_job_id listed \<mapsto> saved)\<rparr>)"
  unfolding st2_def saved_def obj3_def status_def R_def D_def stored_def sv_def st0_def
  using d by (simp add: process_job_def Let_def split_beta image_in_job_fields split del: if_split cong: if_cong)


lemma process_job_handles:
  "handles_one lj_job_id (process_job sjd hook run ni c s u)"
  unfolding handles_one_def
proof (intro allI)
  fix listed st
  let ?H = "process_job sjd hook run ni c s u listed st"
  show "\<exists>img t. rs_log ?H = rs_log st @ img @ [t] \<and>
        le_ref t = lj_job_id listed \<and> terminal t \<and> length img \<le> 1 \<and>
        (\<forall>e \<in> set img. le_ref e = lj_job_id listed \<and> le_status e = ''image_error'') \<and>
        rs_seen ?H = rs_seen st \<and> rs_yielded ?H = rs_yielded st \<and>
        rs_aborted ?H = rs_aborted st \<and>
        length (rs_fetched ?H) = Suc (length (rs_fetched st)) \<and>
        length (rs_hook_calls ?H) \<le> Suc (length (rs_hook_calls st))"
  proof (cases "sjd (lj_url listed)")
    case (Inl e)
    let ?t = "\<lparr>le_run_id = run, le_category = c, le_keyword = s, le_start_url = u,
             le_ref = lj_job_id listed, le_status = ''error'', le_message = e\<rparr>"
    show ?thesis
      unfolding process_job_Inl [where sjd = sjd and listed = listed, OF Inl]
      by (intro exI [where x = "[]"] exI [where x = ?t])
         (simp add: log_row_def terminal_status)
  next
    case (Inr details)
    define st0 where
      "st0 = st\<lparr>rs_fetched := rs_fetched st @ [lj_url listed], rs_clock := Suc (rs_clock st)\<rparr>"
    define sv where "sv = job_safe_vals (merge_job details listed c s)"
    define stored where "stored = (case rs_table st (lj_job_id listed) of
                        None \<Rightarrow> insert_job (rs_clock st) (lj_job_id listed) sv
                      | Some r \<Rightarrow> r)"
    define D where "D = (if rs_table st (lj_job_id listed) = None then (stored, [])
                 else job_changes sv c s stored)"
    define R where "R = (if \<not> ni then job_image_step hook run c s u listed sv (fst D, snd D, st0)
                 else (fst D, snd D, st0))"
    define status where "status = (if rs_table st (lj_job_id listed) = None then ''created''
                      else if fst (snd R) \<noteq> [] then ''updated'' else ''skipped'')"
    let ?t = "\<lparr>le_run_id = run, le_category = c, le_keyword = s, le_start_url = u,
             le_ref = lj_job_id listed, le_status = status, le_message = []\<rparr>"
    note H = process_job_Inr [where sjd = sjd and listed = listed, OF Inr, of hook run ni c s u st,
        folded st0_def sv_def, folded stored_def, folded D_def, folded R_def, folded status_def]
    have proj: "rs_log ?H = rs_log (snd (snd R)) @ [?t]" "rs_seen ?H = rs_seen (snd (snd R))"
      "rs_yielded ?H = rs_yielded (snd (snd R))" "rs_aborted ?H = rs_aborted (snd (snd R))"
      "rs_fetched ?H = rs_fetched (snd (snd R))" "rs_hook_calls ?H = rs_hook_calls (snd (snd R))"
      unfolding H by (simp_all add: log_row_def)
    have trm: "terminal ?t"
      by (simp add: terminal_status status_def)
    obtain img where img: "rs_log (snd (snd R)) = rs_log st @ img" "length img \<le> 1"
      "\<forall>e \<in> set img. le_ref e = lj_job_id listed \<and> le_status e = ''image_error''"
    proof (cases ni)
      case True
      then have "rs_log (snd (snd R)) = rs_log st @ []" by (simp add: R_def st0_def)
      then show ?thesis by (rule that) simp_all
    next
      case False
      from job_image_step_log [of hook run c s u listed sv "fst D" "snd D" st0]
      obtain img where "rs_log (snd (snd (job_image_step hook run c s u listed sv
           (fst D, snd D, st0)))) = rs_log st0 @ img" "length img \<le> 1"
        "\<forall>e \<in> set img. le_ref e = lj_job_id listed \<and> le_status e = ''image_error''"
        by (elim exE conjE)
      with False show ?thesis by (intro that [of img]) (simp_all add: R_def st0_def)
    qed
    have frame: "rs_seen (snd (snd R)) = rs_seen st \<and> rs_yielded (snd (snd R)) = rs_yielded st \<and>
      rs_aborted (snd (snd R)) = rs_aborted st \<and>
      rs_fetched (snd (snd R)) = rs_fetched st @ [lj_url listed]"
      using job_image_step_frame [of hook run c s u listed sv "fst D" "snd D" st0]
      by (cases ni) (simp_all add: R_def st0_def)
    have hk: "length (rs_hook_calls (snd (snd R))) \<le> Suc (length (rs_hook_calls st))"
      using job_image_step_hook_calls [of hook run c s u listed sv "fst D" "snd D" st0]
      by (cases ni) (simp_all add: R_def st0_def)
    show ?thesis
      unfolding proj
      apply (intro exI [where x = img] exI [where x = ?t] conjI)
      using trm img frame hk by simp_all
  qed
qed


section \<open>Whole runs\<close>


lemma run_inv_once:
  assumes "run_inv log0 st"
  shows "distinct (map le_ref (filter terminal (drop (length log0) (rs_log st)))) \<and>
     set (map le_ref (filter terminal (drop (length log0) (rs_log st)))) = rs_seen st \<and>
     finite (rs_seen st) \<and> card (rs_seen st) = length (rs_fetched st) \<and>
     length (rs_hook_calls st) \<le> length (rs_fetched st)"
proof -
  from assms obtain new where n:
    "rs_log st = log0 @ new"
    "distinct (map le_ref (filter terminal new))"
    "set (map le_ref (filter terminal new)) = rs_seen st"
    "finite (rs_seen st)" "card (rs_seen st) = length (rs_fetched st)"
    "length (rs_hook_calls st) \<le> length (rs_fetched st)"
    unfolding run_inv_def by (elim exE conjE)
  from n(1) have d: "drop (length log0) (rs_log st) = new"
    by simp
  show ?thesis
    unfolding d using n(2-6) by (intro conjI)
qed

lemma app_handle_run_inv:
  "run_inv log (app_handle svd hook bsu crawl run max_rows start_url ni rf cats
     (start_state db log now))"
  unfolding app_handle_def Let_def
  by (simp add: item_loop_run_inv category_loop_run_inv app_handle_item_handles run_inv_start)

lemma job_handle_run_inv:
  "run_inv log (job_handle sjd hook bsu crawl run max_rows ni cats (start_state db log now))"
  unfolding job_handle_def
  by (simp add: category_loop_run_inv process_job_handles run_inv_start)









text \<open>
  C10. The seen set of a run spans all its queries. At the end of a run of either
  command the new terminal log entries carry pairwise distinct references, these are
  exactly the references in the seen set, and the number of detail pages requested is
  the number of references in the seen set (the image hook is called at most that often):
  no reference is fetched or stored twice in a run, under whichever query it is listed
  again. An item whose reference is already in the seen set is passed over without any
  effect but the record that it was pulled: no detail page is requested and neither the
  table nor the log changes, whatever the processing function is.
\<close>

theorem run_wide_dedup:
  fixes svd hook bsu crawl run max_rows start_url ni rf cats db log now
    and sjd jhook jbsu jcrawl jrun jmax jni jcats jdb jlog jnow
  defines "A \<equiv> app_handle svd hook bsu crawl run max_rows start_url ni rf cats
                 (start_state db log now)"
    and "J \<equiv> job_handle sjd jhook jbsu jcrawl jrun jmax jni jcats (start_state jdb jlog jnow)"
  shows
    "(distinct (map le_ref (filter terminal (drop (length log) (rs_log A)))) \<and>
      set (map le_ref (filter terminal (drop (length log) (rs_log A)))) = rs_seen A \<and>
      finite (rs_seen A) \<and> length (rs_fetched A) = card (rs_seen A) \<and>
      length (rs_hook_calls A) \<le> card (rs_seen A)) \<and>
     (distinct (map le_ref (filter terminal (drop (length jlog) (rs_log J)))) \<and>
      set (map le_ref (filter terminal (drop (length jlog) (rs_log J)))) = rs_seen J \<and>
      finite (rs_seen J) \<and> length (rs_fetched J) = card (rs_seen J) \<and>
      length (rs_hook_calls J) \<le> card (rs_seen J)) \<and>
     (ref_of x \<in> rs_seen st \<longrightarrow>
        item_loop ref_of process limit [Item x] st
          = st\<lparr>rs_yielded := rs_yielded st @ [ref_of x]\<rparr>)"
proof (intro conjI impI)
  have "run_inv log A"
    unfolding A_def by (rule app_handle_run_inv)
  from run_inv_once [OF this]
  show "distinct (map le_ref (filter terminal (drop (length log) (rs_log A))))"
    and "set (map le_ref (filter terminal (drop (length log) (rs_log A)))) = rs_seen A"
    and "finite (rs_seen A)" and "length (rs_fetched A) = card (rs_seen A)"
    and "length (rs_hook_calls A) \<le> card (rs_seen A)"
    by simp_all
next
  have "run_inv jlog J"
    unfolding J_def by (rule job_handle_run_inv)
  from run_inv_once [OF this]
  show "distinct (map le_ref (filter terminal (drop (length jlog) (rs_log J))))"
    and "set (map le_ref (filter terminal (drop (length jlog) (rs_log J)))) = rs_seen J"
    and "finite (rs_seen J)" and "length (rs_fetched J) = card (rs_seen J)"
    and "length (rs_hook_calls J) \<le> card (rs_seen J)"
    by simp_all
next
  assume "ref_of x \<in> rs_seen st"
  then show "item_loop ref_of process limit [Item x] st
          = st\<lparr>rs_yielded := rs_yielded st @ [ref_of x]\<rparr>"
    by (simp add: Let_def)
qed

theorem run_wide_dedup_witness:
  "rs_yielded repeated_vacancy_run = [''VAC1'', ''VAC2'', ''VAC1'', ''VAC2''] \<and>
   length (rs_fetched repeated_vacancy_run) = 2 \<and>
   rs_yielded repeated_job_run = [''17'', ''18'', ''17'', ''18''] \<and>
   length (rs_fetched repeated_job_run) = 2 \<and>
   lj_job_id (stub_job []) \<in> rs_seen repeated_job_run \<and>
   item_loop lj_job_id
       (process_job (\<lambda>u. Inr Map.empty) (\<lambda>n r t. Inr ''http://img/1'') 8 False
          ''Health'' ''Chef'' ''http://list'')
       0 [Item (stub_job [])] repeated_job_run
     = repeated_job_run\<lparr>rs_yielded := rs_yielded repeated_job_run @ [lj_job_id (stub_job [])]\<rparr>"
proof -
  note inst = run_wide_dedup [where svd = "\<lambda>u. Inr chef_data"
      and hook = "\<lambda>n r t e. Inr ''http://img/1''" and bsu = id and crawl = two_vacancies
      and run = 7 and max_rows = 0 and start_url = "[]" and ni = True
      and rf = False and cats = "[(''Health'', [''Chef'']), (''Care'', [''Cook''])]"
      and db = Map.empty and log = "[]" and now = 1
      and sjd = "\<lambda>u. Inr Map.empty" and jhook = "\<lambda>n r t. Inr ''http://img/1''"
      and jbsu = id and jcrawl = two_jobs and jrun = 7 and jmax = 0 and jni = True
      and jcats = "[(''Health'', [''Chef'']), (''Care'', [''Cook''])]"
      and jdb = Map.empty and jlog = "[]" and jnow = 1
      and ref_of = lj_job_id and x = "stub_job []" and st = repeated_job_run
      and process = "process_job (\<lambda>u. Inr Map.empty) (\<lambda>n r t. Inr ''http://img/1'') 8 False
          ''Health'' ''Chef'' ''http://list''" and limit = 0,
      folded repeated_vacancy_run_def repeated_job_run_def]
  have y1: "rs_yielded repeated_vacancy_run = [''VAC1'', ''VAC2'', ''VAC1'', ''VAC2'']"
    by code_simp
  have c1: "card (rs_seen repeated_vacancy_run) = 2"
    by code_simp
  have y2: "rs_yielded repeated_job_run = [''17'', ''18'', ''17'', ''18'']"
    by code_simp
  have c2: "card (rs_seen repeated_job_run) = 2"
    by code_simp
  have s: "lj_job_id (stub_job []) \<in> rs_seen repeated_job_run"
    by code_simp
  from inst [THEN conjunct1] c1 have f1: "length (rs_fetched repeated_vacancy_run) = 2"
    by simp
  from inst [THEN conjunct2, THEN conjunct1] c2 have f2: "length (rs_fetched repeated_job_run) = 2"
    by simp
  note l = inst [THEN conjunct2, THEN conjunct2, THEN mp, OF s]
  from y1 f1 y2 f2 s l show ?thesis
    by (intro conjI)
qed

end
